theory Spec2Isabelle
  imports Complex_Main
begin

section \<open>Data model\<close>

text \<open>
  The client keeps the pipeline state in React component state. A JavaScript string is
  modelled as a \<open>string\<close> holding its UTF-8 bytes (the i-acute of the default
  message is two bytes); equality and concatenation, the only string operations the
  pipeline uses, agree with JavaScript's under this encoding. An optional property
  (\<open>message?: string\<close>) is a \<open>string option\<close>, \<open>None\<close> standing for \<open>undefined\<close>.
  A field carries the name of its record where the source's name (\<open>id\<close>, \<open>name\<close>,
  \<open>type\<close>, \<open>file\<close>) is taken in HOL or is shared by two records.
\<close>

datatype TaskStatus = Pending | Running | Completed | Error

record Task =
  task_id :: string
  task_name :: string
  status :: TaskStatus
  message :: "string option"

datatype FileType = Processo | Audiencia

record File =
  file_name :: string
  file_size :: nat

record UploadedFile =
  file_data :: File
  file_type :: FileType
  file_id :: string

text \<open>The state of the \<open>Home\<close> component (the five \<open>useState\<close> cells).\<close>

record Home =
  uploadedFiles :: "UploadedFile list"
  isProcessing :: bool
  tasks :: "Task list"
  currentStep :: string
  caseId :: string

section \<open>The status update\<close>

text \<open>
  \<open>updateTaskStatus(taskId, status, message?)\<close> calls \<open>setTasks\<close> with the updater
  \<open>prevTasks.map(task => task.id === taskId ? {...task, status, message} : task)\<close>.
  The function below is that updater. It has no failing branch: the source neither
  inspects the current status nor throws.
\<close>

definition updateTaskStatus :: "string \<Rightarrow> TaskStatus \<Rightarrow> string option \<Rightarrow> Task list \<Rightarrow> Task list" where
  "updateTaskStatus taskId st msg prevTasks =
     map (\<lambda>task. if task_id task = taskId then task\<lparr>status := st, message := msg\<rparr> else task)
       prevTasks"

text \<open>
  The transition contract in the words of the specification, for comparison with the
  code: the allowed transitions are pending to running, running to completed and
  running to error; every other change fails with \<open>InvalidTransition\<close>.
\<close>

datatype TransitionError = InvalidTransition

fun forward_reachable_spec :: "TaskStatus \<Rightarrow> TaskStatus \<Rightarrow> bool" where
  "forward_reachable_spec Pending Running = True"
| "forward_reachable_spec Running Completed = True"
| "forward_reachable_spec Running Error = True"
| "forward_reachable_spec _ _ = False"

definition transition_spec :: "Task \<Rightarrow> TaskStatus \<Rightarrow> string option \<Rightarrow> TransitionError + Task" where
  "transition_spec task newStatus msg =
     (if forward_reachable_spec (status task) newStatus
      then Inr (task\<lparr>status := newStatus, message := msg\<rparr>)
      else Inl InvalidTransition)"

section \<open>Effects of the component's functions\<close>

text \<open>
  The runners \<open>processWithAPI\<close> and \<open>simulateProcessing\<close> are sequences of
  state-setter calls and awaited operations (\<open>fetch\<close>, a timer). A run is modelled as
  the list of these effects in program order; \<open>apply_effect\<close> is what each does to
  the component state. React applies queued setters in call order, and \<open>setTasks\<close>
  is always called with an updater function, so replaying the list from the state at
  the start of the run gives the state of the component after each call. An awaited
  operation changes no state by itself; the state in which it is issued is the one an
  observer sees while it is in flight.
\<close>

datatype Effect =
    SetCurrentStep string
  | UpdateTaskStatus string TaskStatus "string option"
  | Fetch string
  | Delay nat

fun apply_effect :: "Effect \<Rightarrow> Home \<Rightarrow> Home" where
  "apply_effect (SetCurrentStep l) s = s\<lparr>currentStep := l\<rparr>"
| "apply_effect (UpdateTaskStatus taskId st msg) s =
     s\<lparr>tasks := updateTaskStatus taskId st msg (tasks s)\<rparr>"
| "apply_effect (Fetch url) s = s"
| "apply_effect (Delay ms) s = s"

text \<open>The state after a list of effects, and the list of all states passed through.\<close>

fun exec :: "Effect list \<Rightarrow> Home \<Rightarrow> Home" where
  "exec [] s = s"
| "exec (e # es) s = exec es (apply_effect e s)"

fun states :: "Effect list \<Rightarrow> Home \<Rightarrow> Home list" where
  "states [] s = [s]"
| "states (e # es) s = s # states es (apply_effect e s)"

section \<open>The pipeline runner\<close>

text \<open>
  Both runners loop over a constant list \<open>steps\<close>. The loop is modelled for any list
  of steps, and the runner is the loop on the constant of the source.
\<close>

record Step =
  step_id :: string
  step_name :: string
  endpoint :: string

record SimStep =
  sim_id :: string
  sim_name :: string
  duration :: nat

text \<open>
  How an awaited promise settles: fulfilled with a value, or rejected with an error
  whose \<open>message\<close> is the string. A response is reduced to what the runner reads:
  \<open>ok\<close>, \<open>statusText\<close>, the outcome of \<open>text()\<close> and the outcome of \<open>json()\<close>, the
  latter reduced to the \<open>message\<close> property of the parsed object (\<open>None\<close> when it has
  none). The body is taken to be an object whose \<open>message\<close>, when present, is a string,
  as the stage boundary of the specification has it.
\<close>

datatype 'a Promise = Fulfilled 'a | Rejected string

record Response =
  ok :: bool
  statusText :: string
  body_text :: "string Promise"
  body_json :: "string option Promise"

datatype Outcome = Returned | Thrown string

definition API_URL :: string where
  "API_URL = ''http://localhost:8000''"

definition Concluido :: string where
  "Concluido = ''Conclu'' @ [CHR 0xC3, CHR 0xAD] @ ''do''"

definition success_label :: string where
  "success_label =
     ''Senten'' @ [CHR 0xC3, CHR 0xA7] @ ''a gerada com sucesso! '' @ [CHR 0xF0, CHR 0x9F, CHR 0x8E, CHR 0x89]"

definition newTasks_api :: "Task list" where
  "newTasks_api =
     [\<lparr>task_id = ''0'', task_name = ''Upload de arquivos'', status = Pending, message = None\<rparr>,
      \<lparr>task_id = ''1'',
       task_name = ''Transcri'' @ [CHR 0xC3, CHR 0xA7, CHR 0xC3, CHR 0xA3] @ ''o de '' @ [CHR 0xC3, CHR 0xA1] @ ''udio'',
       status = Pending, message = None\<rparr>,
      \<lparr>task_id = ''2'', task_name = ''Processamento com Gemini'', status = Pending, message = None\<rparr>,
      \<lparr>task_id = ''3'',
       task_name = ''Gera'' @ [CHR 0xC3, CHR 0xA7, CHR 0xC3, CHR 0xA3] @ ''o da senten'' @ [CHR 0xC3, CHR 0xA7] @ ''a'',
       status = Pending, message = None\<rparr>]"

definition processWithAPI_steps :: "Step list" where
  "processWithAPI_steps =
     [\<lparr>step_id = ''1'', step_name = ''Transcrevendo '' @ [CHR 0xC3, CHR 0xA1] @ ''udio...'',
       endpoint = ''step1-transcribe''\<rparr>,
      \<lparr>step_id = ''2'', step_name = ''Processando com Gemini...'', endpoint = ''step2-process''\<rparr>,
      \<lparr>step_id = ''3'', step_name = ''Gerando senten'' @ [CHR 0xC3, CHR 0xA7] @ ''a com Claude...'',
       endpoint = ''step3-generate''\<rparr>]"

definition stage_url :: "Step \<Rightarrow> string \<Rightarrow> string" where
  "stage_url step uploadedCaseId = API_URL @ ''/'' @ endpoint step @ ''/'' @ uploadedCaseId"

text \<open>
  The body of the \<open>try\<close> block up to the parsed result: \<open>Inl\<close> is the message of the
  error that reaches the \<open>catch\<close> (a rejected \<open>fetch\<close>, a response that is not \<open>ok\<close>,
  a rejected \<open>text()\<close> or \<open>json()\<close>), \<open>Inr\<close> is \<open>result.message\<close>.
\<close>

definition try_stage :: "Step \<Rightarrow> Response Promise \<Rightarrow> string + string option" where
  "try_stage step p =
     (case p of
        Rejected m \<Rightarrow> Inl m
      | Fulfilled response \<Rightarrow>
          if \<not> ok response then
            (case body_text response of
               Rejected m \<Rightarrow> Inl m
             | Fulfilled errorText \<Rightarrow> Inl (step_name step @ '' falhou: '' @ statusText response))
          else
            (case body_json response of
               Rejected m \<Rightarrow> Inl m
             | Fulfilled result_message \<Rightarrow> Inr result_message))"

text \<open>\<open>result.message || 'Conclu\<dots>do'\<close>: an absent message and the empty string are falsy.\<close>

definition message_or_default :: "string option \<Rightarrow> string" where
  "message_or_default m =
     (case m of None \<Rightarrow> Concluido | Some s \<Rightarrow> if s = [] then Concluido else s)"

text \<open>
  The loop of \<open>processWithAPI\<close>. \<open>fetch n\<close> is how the \<open>n\<close>-th call of \<open>fetch\<close>
  settles. The result is the effects in program order and how the loop ends: it
  returns, or it rethrows the caught error.
\<close>

fun processSteps :: "string \<Rightarrow> (nat \<Rightarrow> Response Promise) \<Rightarrow> nat \<Rightarrow> Step list \<Rightarrow> Effect list \<times> Outcome" where
  "processSteps uploadedCaseId fetch n [] = ([], Returned)"
| "processSteps uploadedCaseId fetch n (step # rest) =
     (case try_stage step (fetch n) of
        Inr result_message \<Rightarrow>
          (case processSteps uploadedCaseId fetch (Suc n) rest of
             (effects, outcome) \<Rightarrow>
               ([SetCurrentStep (step_name step),
                 UpdateTaskStatus (step_id step) Running (Some (step_name step)),
                 Fetch (stage_url step uploadedCaseId),
                 UpdateTaskStatus (step_id step) Completed (Some (message_or_default result_message))]
                @ effects, outcome))
      | Inl error_message \<Rightarrow>
          ([SetCurrentStep (step_name step),
            UpdateTaskStatus (step_id step) Running (Some (step_name step)),
            Fetch (stage_url step uploadedCaseId),
            UpdateTaskStatus (step_id step) Error (Some (''Erro: '' @ error_message))],
           Thrown error_message))"

definition processWithAPI :: "string \<Rightarrow> (nat \<Rightarrow> Response Promise) \<Rightarrow> Effect list \<times> Outcome" where
  "processWithAPI uploadedCaseId fetch =
     (case processSteps uploadedCaseId fetch 0 processWithAPI_steps of
        (effects, Returned) \<Rightarrow> (effects @ [SetCurrentStep success_label], Returned)
      | (effects, Thrown m) \<Rightarrow> (effects, Thrown m))"

text \<open>The simulated runner of \<open>page.tsx\<close>: each stage's operation is a timer.\<close>

definition newTasks_page :: "Task list" where
  "newTasks_page =
     [\<lparr>task_id = ''1'', task_name = ''An'' @ [CHR 0xC3, CHR 0xA1] @ ''lise de documentos'',
       status = Pending, message = None\<rparr>,
      \<lparr>task_id = ''2'',
       task_name = ''Transcri'' @ [CHR 0xC3, CHR 0xA7, CHR 0xC3, CHR 0xA3] @ ''o de '' @ [CHR 0xC3, CHR 0xA1] @ ''udio'',
       status = Pending, message = None\<rparr>,
      \<lparr>task_id = ''3'',
       task_name = ''Extra'' @ [CHR 0xC3, CHR 0xA7, CHR 0xC3, CHR 0xA3] @ ''o de informa'' @ [CHR 0xC3, CHR 0xA7, CHR 0xC3, CHR 0xB5] @ ''es'',
       status = Pending, message = None\<rparr>,
      \<lparr>task_id = ''4'', task_name = ''Consulta de jurisprud'' @ [CHR 0xC3, CHR 0xAA] @ ''ncia'',
       status = Pending, message = None\<rparr>,
      \<lparr>task_id = ''5'',
       task_name = ''Gera'' @ [CHR 0xC3, CHR 0xA7, CHR 0xC3, CHR 0xA3] @ ''o da senten'' @ [CHR 0xC3, CHR 0xA7] @ ''a'',
       status = Pending, message = None\<rparr>]"

definition simulateProcessing_steps :: "SimStep list" where
  "simulateProcessing_steps =
     [\<lparr>sim_id = ''1'', sim_name = ''Analisando documentos...'', duration = 2000\<rparr>,
      \<lparr>sim_id = ''2'', sim_name = ''Transcrevendo '' @ [CHR 0xC3, CHR 0xA1] @ ''udio...'', duration = 3000\<rparr>,
      \<lparr>sim_id = ''3'', sim_name = ''Extraindo informa'' @ [CHR 0xC3, CHR 0xA7, CHR 0xC3, CHR 0xB5] @ ''es...'',
       duration = 2500\<rparr>,
      \<lparr>sim_id = ''4'', sim_name = ''Consultando jurisprud'' @ [CHR 0xC3, CHR 0xAA] @ ''ncia...'', duration = 2000\<rparr>,
      \<lparr>sim_id = ''5'', sim_name = ''Gerando senten'' @ [CHR 0xC3, CHR 0xA7] @ ''a...'', duration = 3000\<rparr>]"

fun simulateSteps :: "SimStep list \<Rightarrow> Effect list" where
  "simulateSteps [] = []"
| "simulateSteps (step # rest) =
     [SetCurrentStep (sim_name step),
      UpdateTaskStatus (sim_id step) Running (Some (sim_name step)),
      Delay (duration step),
      UpdateTaskStatus (sim_id step) Completed (Some Concluido)]
     @ simulateSteps rest"

definition simulateProcessing :: "Effect list" where
  "simulateProcessing = simulateSteps simulateProcessing_steps @ [SetCurrentStep success_label]"

section \<open>The results section\<close>

text \<open>
  The two buttons that open and download the generated document are rendered inside
  the block guarded by
  \<open>tasks.length > 0 && tasks.every(t => t.status === 'completed') && caseId\<close>;
  both address \<open>${API_URL}/download/${caseId}/sentenca\<close>.
\<close>

definition results_visible :: "Home \<Rightarrow> bool" where
  "results_visible s =
     (length (tasks s) > 0 \<and> list_all (\<lambda>t. status t = Completed) (tasks s) \<and> caseId s \<noteq> [])"

definition offered_artifact_urls :: "Home \<Rightarrow> string list" where
  "offered_artifact_urls s =
     (if results_visible s
      then [API_URL @ ''/download/'' @ caseId s @ ''/sentenca'',
            API_URL @ ''/download/'' @ caseId s @ ''/sentenca'']
      else [])"

section \<open>The upload zone\<close>

text \<open>
  \<open>UploadZone\<close> keeps one cell per role and reports the list of retained files to its
  parent through \<open>onFilesChange\<close>, which is \<open>setUploadedFiles\<close> of \<open>Home\<close>. Each handler
  is modelled as a function from the cells it reads to the new cells and the list it
  reports. The identifier \<open>Math.random().toString(36).substr(2, 9)\<close> is a parameter.
\<close>

record UploadZone =
  processoFile :: "UploadedFile option"
  audienciaFile :: "UploadedFile option"

definition handleDrop :: "File \<Rightarrow> FileType \<Rightarrow> string \<Rightarrow> UploadZone \<Rightarrow> UploadZone \<times> UploadedFile list" where
  "handleDrop f ty new_id z =
     (let newFile = \<lparr>file_data = f, file_type = ty, file_id = new_id\<rparr>;
          z' = (if ty = Processo then z\<lparr>processoFile := Some newFile\<rparr>
                else z\<lparr>audienciaFile := Some newFile\<rparr>);
          allFiles =
            (if ty = Processo
             then [newFile] @ (case audienciaFile z of Some a \<Rightarrow> [a] | None \<Rightarrow> [])
             else (case processoFile z of Some p \<Rightarrow> [p] | None \<Rightarrow> []) @ [newFile])
      in (z', allFiles))"

definition removeProcessoFile :: "UploadZone \<Rightarrow> UploadZone \<times> UploadedFile list" where
  "removeProcessoFile z =
     (z\<lparr>processoFile := None\<rparr>, case audienciaFile z of Some a \<Rightarrow> [a] | None \<Rightarrow> [])"

definition removeAudienciaFile :: "UploadZone \<Rightarrow> UploadZone \<times> UploadedFile list" where
  "removeAudienciaFile z =
     (z\<lparr>audienciaFile := None\<rparr>, case processoFile z of Some p \<Rightarrow> [p] | None \<Rightarrow> [])"

text \<open>
  The user's actions on the zone, and the cells of the zone together with the parent's
  \<open>uploadedFiles\<close> after a sequence of them. Every action is handled by the closure of
  the latest render, which reads the current cells.
\<close>

datatype UploadEvent = Drop File FileType string | RemoveProcesso | RemoveAudiencia

fun upload_event :: "UploadEvent \<Rightarrow> UploadZone \<times> UploadedFile list \<Rightarrow> UploadZone \<times> UploadedFile list" where
  "upload_event (Drop f ty new_id) (z, retained) = handleDrop f ty new_id z"
| "upload_event RemoveProcesso (z, retained) = removeProcessoFile z"
| "upload_event RemoveAudiencia (z, retained) = removeAudienciaFile z"

fun upload_events :: "UploadEvent list \<Rightarrow> UploadZone \<times> UploadedFile list \<Rightarrow> UploadZone \<times> UploadedFile list" where
  "upload_events [] st = st"
| "upload_events (e # es) st = upload_events es (upload_event e st)"

definition upload_initial :: "UploadZone \<times> UploadedFile list" where
  "upload_initial = (\<lparr>processoFile = None, audienciaFile = None\<rparr>, [])"

text \<open>
  The invariant of the zone: the list reported to the parent is the processo cell
  followed by the audiencia cell, and each cell holds a file of its own role.
\<close>

definition upload_consistent :: "UploadZone \<times> UploadedFile list \<Rightarrow> bool" where
  "upload_consistent st =
     (snd st = (case processoFile (fst st) of Some p \<Rightarrow> [p] | None \<Rightarrow> [])
               @ (case audienciaFile (fst st) of Some a \<Rightarrow> [a] | None \<Rightarrow> [])
      \<and> (case processoFile (fst st) of Some p \<Rightarrow> file_type p = Processo | None \<Rightarrow> True)
      \<and> (case audienciaFile (fst st) of Some a \<Rightarrow> file_type a = Audiencia | None \<Rightarrow> True))"

section \<open>JavaScript numbers\<close>

text \<open>
  A JavaScript number is an IEEE 754 binary64 value. A finite one is modelled by its
  exact rational value, and \<open>/\<close> and \<open>*\<close> are the exact operation followed by rounding
  to the nearest representable value, ties to the even significand (\<open>rne\<close>). The
  significand has 53 bits, so a value of binary exponent \<open>e\<close> (at least \<open>-1022\<close>, below
  which values are subnormal) is a multiple of \<open>2 powi (e - 52)\<close>. Infinities and NaN
  are left out: the progress computation divides only by a positive count and its
  values lie between 0 and 100. A count is below \<open>2 ^ 32\<close> and converts exactly.

  \<open>ilog2 x\<close> is the binary exponent of a positive \<open>x\<close>, the integer \<open>e\<close> with
  \<open>2 powi e \<le> x < 2 powi (e + 1)\<close>.
\<close>

function ilog2 :: "rat \<Rightarrow> int" where
  "ilog2 x = (if x \<le> 0 then 0 else if 2 \<le> x then ilog2 (x / 2) + 1
              else if x < 1 then ilog2 (x * 2) - 1 else 0)"
  by pat_completeness auto
termination
proof (relation "measure (\<lambda>x. if 1 \<le> x then nat \<lfloor>x\<rfloor> else nat \<lceil>1 / x\<rceil> + 1)", goal_cases)
  case 1
  show ?case by simp
next
  case (2 x)
  then have x: "2 \<le> x" by simp
  define a where "a = \<lfloor>x\<rfloor>"
  define b where "b = \<lfloor>x / 2\<rfloor>"
  have f2: "2 \<le> a" using x by (simp add: a_def le_floor_iff)
  have "x / 2 \<le> x - 1" using x by simp
  then have "\<lfloor>x / 2\<rfloor> \<le> \<lfloor>x - 1\<rfloor>" by (rule floor_mono)
  then have "b \<le> a - 1" by (simp add: a_def b_def)
  then have "nat b < nat a" using f2 by simp
  then have "nat \<lfloor>x / 2\<rfloor> < nat \<lfloor>x\<rfloor>" by (simp only: a_def b_def)
  then show ?case using x by simp
next
  case (3 x)
  then have x: "0 < x" "x < 1" by simp_all
  define y where "y = 1 / x"
  have y: "1 < y" using x by (simp add: y_def)
  define c where "c = \<lceil>y\<rceil>"
  have c2: "1 < c" using y by (simp add: c_def less_ceiling_iff)
  show ?case
  proof (cases "1 \<le> x * 2")
    case True
    define d where "d = \<lfloor>x * 2\<rfloor>"
    have "x * 2 < of_int 2" using x by simp
    then have "d < 2" by (simp only: d_def floor_less_iff)
    then have "nat d < nat c + 1" using c2 by simp
    then have "nat \<lfloor>x * 2\<rfloor> < nat \<lceil>1 / x\<rceil> + 1"
      by (simp only: d_def c_def y_def)
    then show ?thesis using True x by simp
  next
    case False
    define e where "e = \<lceil>y / 2\<rceil>"
    from c2 have "2 \<le> c" by simp
    then have "(of_int 2 :: rat) \<le> of_int c" by (simp only: of_int_le_iff)
    then have "(2::rat) \<le> of_int c" by simp
    moreover have "y \<le> of_int c" unfolding c_def by (rule le_of_int_ceiling)
    ultimately have "y / 2 \<le> of_int c - 1" by simp
    then have "y / 2 \<le> of_int (c - 1)" by simp
    then have "e \<le> c - 1" by (simp only: e_def ceiling_le_iff)
    then have "nat e < nat c" using c2 by simp
    then have "nat \<lceil>1 / x / 2\<rceil> < nat \<lceil>1 / x\<rceil>"
      by (simp only: e_def c_def y_def)
    then show ?thesis using False x by simp
  qed
qed

declare ilog2.simps [simp del]

definition round_half_even :: "rat \<Rightarrow> int" where
  "round_half_even x =
     (let f = \<lfloor>x\<rfloor>; r = x - of_int f in
      if r < 1 / 2 then f else if 1 / 2 < r then f + 1 else if even f then f else f + 1)"

definition rne :: "rat \<Rightarrow> rat" where
  "rne x = (if x = 0 then 0 else
      let e = max (ilog2 \<bar>x\<bar>) (- 1022) - 52
      in of_int (round_half_even (x / 2 powi e)) * 2 powi e)"

definition fdiv :: "rat \<Rightarrow> rat \<Rightarrow> rat" where
  "fdiv x y = rne (x / y)"

definition fmul :: "rat \<Rightarrow> rat \<Rightarrow> rat" where
  "fmul x y = rne (x * y)"

text \<open>
  \<open>Math.round\<close> returns the integer nearest to its argument, the larger one at a tie.
\<close>

definition Math_round :: "rat \<Rightarrow> int" where
  "Math_round x = \<lfloor>x + 1 / 2\<rfloor>"

section \<open>The status card\<close>

text \<open>
  \<open>StatusCard\<close> computes
  \<open>completedTasks = tasks.filter(t => t.status === 'completed').length\<close>,
  \<open>totalTasks = tasks.length\<close> and
  \<open>progress = totalTasks > 0 ? (completedTasks / totalTasks) * 100 : 0\<close>; it draws a bar
  of width \<open>Math.min(100, Math.max(0, progress))\<close> percent and prints
  \<open>Math.round(progress)\<close> as the percentage.
\<close>

definition completedTasks :: "Task list \<Rightarrow> nat" where
  "completedTasks ts = length (filter (\<lambda>t. status t = Completed) ts)"

definition totalTasks :: "Task list \<Rightarrow> nat" where
  "totalTasks ts = length ts"

definition progress :: "Task list \<Rightarrow> rat" where
  "progress ts =
     (if totalTasks ts > 0
      then fmul (fdiv (of_nat (completedTasks ts)) (of_nat (totalTasks ts))) 100
      else 0)"

definition progress_bar_width :: "Task list \<Rightarrow> rat" where
  "progress_bar_width ts = min 100 (max 0 (progress ts))"

definition progress_percent :: "Task list \<Rightarrow> int" where
  "progress_percent ts = Math_round (progress ts)"

text \<open>
  The percentage in the words of the specification, for comparison with the code:
  \<open>round(100 * completedCount / totalCount)\<close> in exact arithmetic, clamped to
  \<open>[0, 100]\<close>, and 0 when \<open>totalCount\<close> is 0.
\<close>

definition percent_spec :: "nat \<Rightarrow> nat \<Rightarrow> int" where
  "percent_spec completedCount totalCount =
     (if totalCount = 0 then 0
      else min 100 (max 0 (round (100 * of_nat completedCount / (of_nat totalCount :: rat)))))"

section \<open>Observations on effect lists\<close>

text \<open>
  What a list of effects does to one task (the status updates addressed to its
  identifier, in order), and the URLs it fetches, in order.
\<close>

fun task_after :: "Effect list \<Rightarrow> Task \<Rightarrow> Task" where
  "task_after [] t = t"
| "task_after (UpdateTaskStatus i st m # es) t =
     task_after es (if task_id t = i then t\<lparr>status := st, message := m\<rparr> else t)"
| "task_after (e # es) t = task_after es t"

fun fetch_urls :: "Effect list \<Rightarrow> string list" where
  "fetch_urls [] = []"
| "fetch_urls (Fetch u # es) = u # fetch_urls es"
| "fetch_urls (e # es) = fetch_urls es"

section \<open>Properties of the status update\<close>

lemma updateTaskStatus_length: "length (updateTaskStatus i st m ts) = length ts"
  by (simp add: updateTaskStatus_def)

lemma updateTaskStatus_nth:
  "k < length ts \<Longrightarrow>
   updateTaskStatus i st m ts ! k =
     (if task_id (ts ! k) = i then (ts ! k)\<lparr>status := st, message := m\<rparr> else ts ! k)"
  by (simp add: updateTaskStatus_def)

lemma updateTaskStatus_member:
  "t \<in> set (updateTaskStatus i st m ts) \<Longrightarrow>
   \<exists>t0 \<in> set ts. task_id t = task_id t0 \<and>
     (if task_id t0 = i then status t = st \<and> message t = m else t = t0)"
  by (induction ts) (auto simp: updateTaskStatus_def split: if_splits)

text \<open>
  Claim C1, as the claim states it, is false: the specification's contract rejects a
  change from completed to pending with \<open>InvalidTransition\<close>, while the code's update
  performs it and moves the task out of its terminal state.
\<close>

theorem updateTaskStatus_terminal_counterexample:
  "transition_spec \<lparr>task_id = ''1'', task_name = ''A'', status = Completed, message = Some ''ok''\<rparr>
       Pending None = Inl InvalidTransition
   \<and> updateTaskStatus ''1'' Pending None
       [\<lparr>task_id = ''1'', task_name = ''A'', status = Completed, message = Some ''ok''\<rparr>]
     = [\<lparr>task_id = ''1'', task_name = ''A'', status = Pending, message = None\<rparr>]"
  by (simp add: transition_spec_def updateTaskStatus_def)

text \<open>
  Claim C1, amended: the status update checks no transition and has no failing
  outcome. For every task list, identifier, new status and message, the statuses
  after the update are the new status at every task with that identifier, whatever
  its status was, and the old status elsewhere.
\<close>

theorem updateTaskStatus_unchecked:
  "map status (updateTaskStatus i st m ts) =
     map (\<lambda>t. if task_id t = i then st else status t) ts"
  by (simp add: updateTaskStatus_def)

text \<open>
  Claim C8: one status update is one state transition, \<open>apply_effect\<close> of a single
  \<open>UpdateTaskStatus\<close>, and the state it yields has, at every task with the given
  identifier, the new status and the new message together (identifier and name kept),
  and every other task, and every other cell of the state, unchanged. The states passed
  through are the state before and the state after, nothing between.
\<close>

theorem updateTaskStatus_atomic:
  "states [UpdateTaskStatus i st m] s = [s, apply_effect (UpdateTaskStatus i st m) s]
   \<and> length (tasks (apply_effect (UpdateTaskStatus i st m) s)) = length (tasks s)
   \<and> (\<forall>k < length (tasks s).
        (task_id (tasks s ! k) = i \<longrightarrow>
           tasks (apply_effect (UpdateTaskStatus i st m) s) ! k
             = \<lparr>task_id = i, task_name = task_name (tasks s ! k), status = st, message = m\<rparr>)
      \<and> (task_id (tasks s ! k) \<noteq> i \<longrightarrow>
           tasks (apply_effect (UpdateTaskStatus i st m) s) ! k = tasks s ! k))
   \<and> currentStep (apply_effect (UpdateTaskStatus i st m) s) = currentStep s
   \<and> caseId (apply_effect (UpdateTaskStatus i st m) s) = caseId s
   \<and> isProcessing (apply_effect (UpdateTaskStatus i st m) s) = isProcessing s
   \<and> uploadedFiles (apply_effect (UpdateTaskStatus i st m) s) = uploadedFiles s"
  by (simp add: updateTaskStatus_length updateTaskStatus_nth)

text \<open>Claim C8 at the failure of the second of two tasks.\<close>

theorem updateTaskStatus_atomic_witness:
  "tasks (apply_effect (UpdateTaskStatus ''2'' Error (Some ''Erro: x''))
      \<lparr>uploadedFiles = [], isProcessing = True,
       tasks = [\<lparr>task_id = ''1'', task_name = ''A'', status = Completed, message = Some ''ok''\<rparr>,
                \<lparr>task_id = ''2'', task_name = ''B'', status = Running, message = Some ''B...''\<rparr>],
       currentStep = ''B...'', caseId = ''c''\<rparr>)
   = [\<lparr>task_id = ''1'', task_name = ''A'', status = Completed, message = Some ''ok''\<rparr>,
      \<lparr>task_id = ''2'', task_name = ''B'', status = Error, message = Some ''Erro: x''\<rparr>]"
  using updateTaskStatus_atomic [of "''2''" Error "Some ''Erro: x''"
      "\<lparr>uploadedFiles = [], isProcessing = True,
       tasks = [\<lparr>task_id = ''1'', task_name = ''A'', status = Completed, message = Some ''ok''\<rparr>,
                \<lparr>task_id = ''2'', task_name = ''B'', status = Running, message = Some ''B...''\<rparr>],
       currentStep = ''B...'', caseId = ''c''\<rparr>"]
  by (simp add: updateTaskStatus_def)

text \<open>
  Claim C10: an update called without a message passes \<open>undefined\<close>, and the spread
  \<open>{...task, status, message}\<close> stores it: every task with the given identifier that
  carried a message has none afterwards (and has the new status).
\<close>

theorem updateTaskStatus_omitted_message:
  "k < length ts \<Longrightarrow> task_id (ts ! k) = i \<Longrightarrow> message (ts ! k) = Some old \<Longrightarrow>
   message (updateTaskStatus i st None ts ! k) = None
   \<and> status (updateTaskStatus i st None ts ! k) = st"
  by (simp add: updateTaskStatus_nth)

text \<open>Claim C10 at a running task completed without a message.\<close>

theorem updateTaskStatus_omitted_message_witness:
  "message (updateTaskStatus ''1'' Completed None
      [\<lparr>task_id = ''1'', task_name = ''A'', status = Running, message = Some ''A...''\<rparr>] ! 0) = None
   \<and> status (updateTaskStatus ''1'' Completed None
      [\<lparr>task_id = ''1'', task_name = ''A'', status = Running, message = Some ''A...''\<rparr>] ! 0) = Completed"
  using updateTaskStatus_omitted_message [of 0
      "[\<lparr>task_id = ''1'', task_name = ''A'', status = Running, message = Some ''A...''\<rparr>]"
      "''1''" "''A...''" Completed]
  by simp

section \<open>Properties of effect lists\<close>

lemma exec_append: "exec (a @ b) s = exec b (exec a s)"
  by (induction a arbitrary: s) auto

lemma tasks_exec: "tasks (exec effs s) = map (task_after effs) (tasks s)"
proof (induction effs arbitrary: s)
  case Nil
  then show ?case by (simp add: map_idI)
next
  case (Cons e effs)
  then show ?case by (cases e) (simp_all add: updateTaskStatus_def)
qed

lemma task_after_append: "task_after (a @ b) t = task_after b (task_after a t)"
  by (induction a t rule: task_after.induct) auto

lemma task_id_task_after: "task_id (task_after effs t) = task_id t"
  by (induction effs t rule: task_after.induct) auto

lemma fetch_urls_append: "fetch_urls (a @ b) = fetch_urls a @ fetch_urls b"
  by (induction a rule: fetch_urls.induct) auto

lemma states_nth: "k \<le> length effs \<Longrightarrow> states effs s ! k = exec (take k effs) s"
proof (induction effs arbitrary: s k)
  case Nil
  then show ?case by simp
next
  case (Cons e effs)
  then show ?case by (cases k) auto
qed

lemma drop_4_Cons: "drop (4 + k) (a # b # c # d # xs) = drop k xs"
  by (simp add: eval_nat_numeral)

lemma take_4_Cons: "take (4 + k) (a # b # c # d # xs) = a # b # c # d # take k xs"
  by (simp add: eval_nat_numeral)

lemma take3_nth:
  assumes "take 3 (drop k xs) = [a, b, c]"
  shows "xs ! k = a" and "xs ! (k + 1) = b" and "xs ! (k + 2) = c" and "k + 2 < length xs"
    and "take (k + 2) xs = take k xs @ [a, b]"
proof -
  have len: "3 \<le> length (drop k xs)"
  proof (rule ccontr)
    assume "\<not> 3 \<le> length (drop k xs)"
    then have "length (take 3 (drop k xs)) < 3" by simp
    then show False using assms by simp
  qed
  then show lt: "k + 2 < length xs" by simp
  have "take 3 (drop k xs) ! 0 = a" "take 3 (drop k xs) ! 1 = b" "take 3 (drop k xs) ! 2 = c"
    using assms by simp_all
  then show n0: "xs ! k = a" and n1: "xs ! (k + 1) = b" and "xs ! (k + 2) = c"
    using lt by simp_all
  have "take (k + 2) xs = take k xs @ take 2 (drop k xs)"
    by (rule take_add)
  moreover have "take 2 (drop k xs) = take 2 (take 3 (drop k xs))" by simp
  ultimately show "take (k + 2) xs = take k xs @ [a, b]"
    using assms by simp
qed

section \<open>Properties of the runners\<close>

text \<open>One stage of the loop, by how its operation settles.\<close>

lemma processSteps_Cons_ok:
  "try_stage step (fetch n) = Inr m \<Longrightarrow>
   processSteps cid fetch n (step # rest) =
     ([SetCurrentStep (step_name step),
       UpdateTaskStatus (step_id step) Running (Some (step_name step)),
       Fetch (stage_url step cid),
       UpdateTaskStatus (step_id step) Completed (Some (message_or_default m))]
      @ fst (processSteps cid fetch (Suc n) rest),
      snd (processSteps cid fetch (Suc n) rest))"
  by (simp split: prod.splits)

lemma processSteps_Cons_fail:
  "try_stage step (fetch n) = Inl r \<Longrightarrow>
   processSteps cid fetch n (step # rest) =
     ([SetCurrentStep (step_name step),
       UpdateTaskStatus (step_id step) Running (Some (step_name step)),
       Fetch (stage_url step cid),
       UpdateTaskStatus (step_id step) Error (Some (''Erro: '' @ r))],
      Thrown r)"
  by simp

lemma processSteps_Cons_take3:
  "take 3 (fst (processSteps cid fetch n (step # rest))) =
     [SetCurrentStep (step_name step),
      UpdateTaskStatus (step_id step) Running (Some (step_name step)),
      Fetch (stage_url step cid)]"
  by (cases "try_stage step (fetch n)") (simp_all split: prod.splits)

lemma task_after_other:
  "task_id t \<notin> step_id ` set steps \<Longrightarrow> task_after (fst (processSteps cid fetch n steps)) t = t"
proof (induction steps arbitrary: n)
  case Nil
  then show ?case by simp
next
  case (Cons step rest)
  then show ?case
    by (cases "try_stage step (fetch n)")
      (auto simp: processSteps_Cons_ok processSteps_Cons_fail simp del: processSteps.simps)
qed

lemma processSteps_drop:
  "j \<le> length steps \<Longrightarrow> \<forall>i<j. \<exists>m. try_stage (steps ! i) (fetch (n + i)) = Inr m \<Longrightarrow>
   drop (4 * j) (fst (processSteps cid fetch n steps)) = fst (processSteps cid fetch (n + j) (drop j steps))
   \<and> snd (processSteps cid fetch n steps) = snd (processSteps cid fetch (n + j) (drop j steps))"
proof (induction steps arbitrary: n j)
  case Nil
  then show ?case by simp
next
  case (Cons step rest)
  show ?case
  proof (cases j)
    case 0
    then show ?thesis by simp
  next
    case (Suc j')
    with Cons.prems obtain m where m: "try_stage step (fetch n) = Inr m" by force
    have "\<forall>i<j'. \<exists>m. try_stage (rest ! i) (fetch (Suc n + i)) = Inr m"
      using Cons.prems(2) Suc by force
    moreover have "j' \<le> length rest" using Cons.prems(1) Suc by simp
    ultimately have "drop (4 * j') (fst (processSteps cid fetch (Suc n) rest)) =
        fst (processSteps cid fetch (Suc n + j') (drop j' rest))
      \<and> snd (processSteps cid fetch (Suc n) rest) = snd (processSteps cid fetch (Suc n + j') (drop j' rest))"
      using Cons.IH [of j' "Suc n"] by blast
    then show ?thesis using Suc m
      by (simp add: processSteps_Cons_ok drop_4_Cons del: processSteps.simps)
  qed
qed

lemma processSteps_take:
  "j \<le> length steps \<Longrightarrow> \<forall>i<j. \<exists>m. try_stage (steps ! i) (fetch (n + i)) = Inr m \<Longrightarrow>
   take (4 * j) (fst (processSteps cid fetch n steps)) = fst (processSteps cid fetch n (take j steps))"
proof (induction steps arbitrary: n j)
  case Nil
  then show ?case by simp
next
  case (Cons step rest)
  show ?case
  proof (cases j)
    case 0
    then show ?thesis by simp
  next
    case (Suc j')
    with Cons.prems obtain m where m: "try_stage step (fetch n) = Inr m" by force
    have "\<forall>i<j'. \<exists>m. try_stage (rest ! i) (fetch (Suc n + i)) = Inr m"
      using Cons.prems(2) Suc by force
    moreover have "j' \<le> length rest" using Cons.prems(1) Suc by simp
    ultimately have "take (4 * j') (fst (processSteps cid fetch (Suc n) rest)) =
        fst (processSteps cid fetch (Suc n) (take j' rest))"
      using Cons.IH [of j' "Suc n"] by blast
    then show ?thesis using Suc m
      by (simp add: processSteps_Cons_ok take_4_Cons del: processSteps.simps)
  qed
qed

lemma processSteps_reached:
  assumes "j < length steps"
    and "\<forall>i<j. \<exists>m. try_stage (steps ! i) (fetch (n + i)) = Inr m"
  shows "take 3 (drop (4 * j) (fst (processSteps cid fetch n steps))) =
     [SetCurrentStep (step_name (steps ! j)),
      UpdateTaskStatus (step_id (steps ! j)) Running (Some (step_name (steps ! j))),
      Fetch (stage_url (steps ! j) cid)]"
proof -
  have j: "j \<le> length steps" using assms(1) by simp
  have d: "drop j steps = steps ! j # drop (Suc j) steps"
    using assms(1) by (simp add: Cons_nth_drop_Suc)
  show ?thesis
    using processSteps_drop [OF j assms(2), of cid]
    by (simp only: d processSteps_Cons_take3)
qed

text \<open>A run in which every stage succeeds.\<close>

lemma processSteps_all_ok_outcome:
  "\<forall>i<length steps. \<exists>m. try_stage (steps ! i) (fetch (n + i)) = Inr m \<Longrightarrow>
   snd (processSteps cid fetch n steps) = Returned"
  using processSteps_drop [of "length steps" steps fetch n cid] by simp

lemma processSteps_all_ok_completed:
  "\<forall>i<length steps. \<exists>m. try_stage (steps ! i) (fetch (n + i)) = Inr m \<Longrightarrow>
   task_id t \<in> step_id ` set steps \<Longrightarrow>
   status (task_after (fst (processSteps cid fetch n steps)) t) = Completed"
proof (induction steps arbitrary: n t)
  case Nil
  then show ?case by simp
next
  case (Cons step rest)
  from Cons.prems(1) obtain m where m: "try_stage step (fetch n) = Inr m" by force
  have rest_ok: "\<forall>i<length rest. \<exists>m. try_stage (rest ! i) (fetch (Suc n + i)) = Inr m"
    using Cons.prems(1) by force
  define t1 where "t1 = (if task_id t = step_id step
      then t\<lparr>status := Completed, message := Some (message_or_default m)\<rparr> else t)"
  have eq: "task_after (fst (processSteps cid fetch n (step # rest))) t =
      task_after (fst (processSteps cid fetch (Suc n) rest)) t1"
    using m by (simp add: processSteps_Cons_ok t1_def del: processSteps.simps)
  have id1: "task_id t1 = task_id t" by (simp add: t1_def)
  show ?case
  proof (cases "task_id t \<in> step_id ` set rest")
    case True
    then show ?thesis using Cons.IH [OF rest_ok, of t1] eq id1 by simp
  next
    case False
    then have "task_after (fst (processSteps cid fetch (Suc n) rest)) t1 = t1"
      using task_after_other [of t1 rest cid fetch "Suc n"] id1 by simp
    moreover from False Cons.prems(2) have "task_id t = step_id step" by simp
    ultimately show ?thesis using eq by (simp add: t1_def)
  qed
qed

lemma processSteps_all_ok_urls:
  "\<forall>i<length steps. \<exists>m. try_stage (steps ! i) (fetch (n + i)) = Inr m \<Longrightarrow>
   fetch_urls (fst (processSteps cid fetch n steps)) = map (\<lambda>st. stage_url st cid) steps"
proof (induction steps arbitrary: n)
  case Nil
  then show ?case by simp
next
  case (Cons step rest)
  from Cons.prems(1) obtain m where m: "try_stage step (fetch n) = Inr m" by force
  have rest_ok: "\<forall>i<length rest. \<exists>m. try_stage (rest ! i) (fetch (Suc n + i)) = Inr m"
    using Cons.prems(1) by force
  show ?case using Cons.IH [OF rest_ok] m
    by (simp add: processSteps_Cons_ok del: processSteps.simps)
qed

text \<open>A run whose stage k is the first to fail.\<close>

lemma processSteps_failed_split:
  assumes "k < length steps"
    and "\<forall>j<k. \<exists>m. try_stage (steps ! j) (fetch (n + j)) = Inr m"
    and "try_stage (steps ! k) (fetch (n + k)) = Inl r"
  shows "fst (processSteps cid fetch n steps) =
      fst (processSteps cid fetch n (take k steps)) @
      [SetCurrentStep (step_name (steps ! k)),
       UpdateTaskStatus (step_id (steps ! k)) Running (Some (step_name (steps ! k))),
       Fetch (stage_url (steps ! k) cid),
       UpdateTaskStatus (step_id (steps ! k)) Error (Some (''Erro: '' @ r))]"
    and "snd (processSteps cid fetch n steps) = Thrown r"
proof -
  have k: "k \<le> length steps" using assms(1) by simp
  have d: "drop k steps = steps ! k # drop (Suc k) steps"
    using assms(1) by (simp add: Cons_nth_drop_Suc)
  have blk: "processSteps cid fetch (n + k) (drop k steps) =
     ([SetCurrentStep (step_name (steps ! k)),
       UpdateTaskStatus (step_id (steps ! k)) Running (Some (step_name (steps ! k))),
       Fetch (stage_url (steps ! k) cid),
       UpdateTaskStatus (step_id (steps ! k)) Error (Some (''Erro: '' @ r))], Thrown r)"
    using assms(3) by (simp add: d processSteps_Cons_fail del: processSteps.simps)
  have "fst (processSteps cid fetch n steps) =
      take (4 * k) (fst (processSteps cid fetch n steps)) @ drop (4 * k) (fst (processSteps cid fetch n steps))"
    by simp
  also have "\<dots> = fst (processSteps cid fetch n (take k steps)) @ fst (processSteps cid fetch (n + k) (drop k steps))"
    using processSteps_take [OF k assms(2)] processSteps_drop [OF k assms(2)] by simp
  finally show "fst (processSteps cid fetch n steps) =
      fst (processSteps cid fetch n (take k steps)) @
      [SetCurrentStep (step_name (steps ! k)),
       UpdateTaskStatus (step_id (steps ! k)) Running (Some (step_name (steps ! k))),
       Fetch (stage_url (steps ! k) cid),
       UpdateTaskStatus (step_id (steps ! k)) Error (Some (''Erro: '' @ r))]"
    by (simp add: blk)
  show "snd (processSteps cid fetch n steps) = Thrown r"
    using processSteps_drop [OF k assms(2), of cid] by (simp add: blk)
qed

lemma simulateSteps_concat:
  "simulateSteps sims =
     concat (map (\<lambda>step. [SetCurrentStep (sim_name step),
                            UpdateTaskStatus (sim_id step) Running (Some (sim_name step)),
                            Delay (duration step),
                            UpdateTaskStatus (sim_id step) Completed (Some Concluido)]) sims)"
  by (induction sims) simp_all

lemma simulateSteps_drop:
  "drop (4 * j) (simulateSteps sims) = simulateSteps (drop j sims)"
proof (induction sims arbitrary: j)
  case Nil
  show ?case by simp
next
  case (Cons step rest)
  show ?case
  proof (cases j)
    case 0
    then show ?thesis by simp
  next
    case (Suc j')
    then show ?thesis using Cons.IH [of j'] by (simp add: drop_4_Cons)
  qed
qed

lemma simulateSteps_reached:
  assumes "j < length sims"
  shows "take 3 (drop (4 * j) (simulateSteps sims)) =
     [SetCurrentStep (sim_name (sims ! j)),
      UpdateTaskStatus (sim_id (sims ! j)) Running (Some (sim_name (sims ! j))),
      Delay (duration (sims ! j))]"
proof -
  have "drop j sims = sims ! j # drop (Suc j) sims"
    using assms by (simp add: Cons_nth_drop_Suc)
  then show ?thesis by (simp add: simulateSteps_drop)
qed

text \<open>
  Claim C2, as the claim states it, is false. On the tasks of \<open>initializeTasks\<close>, with
  the first stage succeeding and the second stage's \<open>fetch\<close> rejected with
  \<open>network error\<close>, the failed task's message is \<open>Erro: network error\<close>, not the
  reason itself, and the run's outcome is the rethrown error, which has no stage index.
\<close>

theorem processWithAPI_abort_counterexample:
  "map (\<lambda>t. (task_id t, status t, message t))
     (tasks (exec (fst (processWithAPI ''c1''
        (\<lambda>n. if n = 0
           then Fulfilled \<lparr>ok = True, statusText = ''OK'', body_text = Fulfilled [], body_json = Fulfilled None\<rparr>
           else Rejected ''network error'')))
      \<lparr>uploadedFiles = [], isProcessing = True, tasks = newTasks_api, currentStep = [], caseId = ''c1''\<rparr>))
   = [(''0'', Pending, None), (''1'', Completed, Some Concluido),
      (''2'', Error, Some ''Erro: network error''), (''3'', Pending, None)]
   \<and> snd (processWithAPI ''c1''
        (\<lambda>n. if n = 0
           then Fulfilled \<lparr>ok = True, statusText = ''OK'', body_text = Fulfilled [], body_json = Fulfilled None\<rparr>
           else Rejected ''network error'')) = Thrown ''network error''
   \<and> ''Erro: network error'' \<noteq> ''network error''"
  by (simp add: processWithAPI_def processWithAPI_steps_def newTasks_api_def try_stage_def
      message_or_default_def updateTaskStatus_def)

text \<open>
  Claim C2, amended. For every list of steps with distinct identifiers, when stages
  before \<open>k\<close> succeed and stage \<open>k\<close> fails with a reason (the message of the error
  caught), then in the final state the tasks of the stages before \<open>k\<close> are completed,
  the task of stage \<open>k\<close> has status error and the message \<open>Erro: \<close> followed by the
  reason, the tasks of the stages after \<open>k\<close> and every task of no stage are as they
  were at the start (pending, if they were), the operations fetched are those of stages
  \<open>0..k\<close> and no other, and the run ends by rethrowing the error with the reason; the
  thrown error carries no stage index.
\<close>

theorem processSteps_abort:
  assumes "distinct (map step_id steps)"
    and "k < length steps"
    and "\<forall>j<k. \<exists>m. try_stage (steps ! j) (fetch j) = Inr m"
    and "try_stage (steps ! k) (fetch k) = Inl reason"
  shows "snd (processSteps cid fetch 0 steps) = Thrown reason
    \<and> fetch_urls (fst (processSteps cid fetch 0 steps)) = map (\<lambda>st. stage_url st cid) (take (Suc k) steps)
    \<and> length (tasks (exec (fst (processSteps cid fetch 0 steps)) s)) = length (tasks s)
    \<and> (\<forall>i<length (tasks s).
         (task_id (tasks s ! i) \<in> step_id ` set (take k steps) \<longrightarrow>
            status (tasks (exec (fst (processSteps cid fetch 0 steps)) s) ! i) = Completed)
       \<and> (task_id (tasks s ! i) = step_id (steps ! k) \<longrightarrow>
            status (tasks (exec (fst (processSteps cid fetch 0 steps)) s) ! i) = Error
          \<and> message (tasks (exec (fst (processSteps cid fetch 0 steps)) s) ! i) = Some (''Erro: '' @ reason))
       \<and> (task_id (tasks s ! i) \<in> step_id ` set (drop (Suc k) steps) \<longrightarrow>
            tasks (exec (fst (processSteps cid fetch 0 steps)) s) ! i = tasks s ! i)
       \<and> (task_id (tasks s ! i) \<notin> step_id ` set steps \<longrightarrow>
            tasks (exec (fst (processSteps cid fetch 0 steps)) s) ! i = tasks s ! i))"
proof -
  let ?effs = "fst (processSteps cid fetch 0 steps)"
  let ?pre = "fst (processSteps cid fetch 0 (take k steps))"
  let ?blk = "[SetCurrentStep (step_name (steps ! k)),
       UpdateTaskStatus (step_id (steps ! k)) Running (Some (step_name (steps ! k))),
       Fetch (stage_url (steps ! k) cid),
       UpdateTaskStatus (step_id (steps ! k)) Error (Some (''Erro: '' @ reason))]"
  have ok: "\<forall>j<k. \<exists>m. try_stage (steps ! j) (fetch (0 + j)) = Inr m" using assms(3) by simp
  have fail: "try_stage (steps ! k) (fetch (0 + k)) = Inl reason" using assms(4) by simp
  have split: "?effs = ?pre @ ?blk" and out: "snd (processSteps cid fetch 0 steps) = Thrown reason"
    using processSteps_failed_split [OF assms(2) ok fail] by simp_all
  have pre_ok: "\<forall>i<length (take k steps). \<exists>m. try_stage (take k steps ! i) (fetch (0 + i)) = Inr m"
    using assms(2,3) by simp
  define before where "before = take k steps"
  define later where "later = drop (Suc k) steps"
  define failed where "failed = steps ! k"
  have steps_eq: "steps = before @ failed # later"
    using assms(2) by (simp add: before_def later_def failed_def id_take_nth_drop [symmetric])
  have "distinct (map step_id (before @ failed # later))"
    using assms(1) by (simp only: steps_eq)
  then have dist: "step_id failed \<notin> step_id ` set before"
      "step_id failed \<notin> step_id ` set later"
      "step_id ` set before \<inter> step_id ` set later = {}"
    by auto
  have k_notin_pre: "step_id (steps ! k) \<notin> step_id ` set (take k steps)"
    using dist(1) by (simp add: before_def failed_def)
  have post_notin_pre: "x \<notin> step_id ` set (take k steps)" if "x \<in> step_id ` set (drop (Suc k) steps)" for x
    using dist(3) that unfolding before_def later_def by blast
  have post_not_k: "x \<noteq> step_id (steps ! k)" if "x \<in> step_id ` set (drop (Suc k) steps)" for x
    using dist(2) that unfolding failed_def later_def by blast
  have "set steps = set before \<union> {failed} \<union> set later"
    by (subst steps_eq) auto
  then have set_steps: "set steps = set (take k steps) \<union> {steps ! k} \<union> set (drop (Suc k) steps)"
    by (simp only: before_def later_def failed_def)
  have urls: "fetch_urls ?effs = map (\<lambda>st. stage_url st cid) (take (Suc k) steps)"
    using processSteps_all_ok_urls [OF pre_ok, of cid] assms(2)
    by (simp add: split fetch_urls_append take_Suc_conv_app_nth)
  have len: "length (tasks (exec ?effs s)) = length (tasks s)"
    by (simp add: tasks_exec)
  have after: "\<And>t. task_after ?effs t = task_after ?blk (task_after ?pre t)"
    by (simp only: split task_after_append)
  have c1: "status (task_after ?effs t) = Completed" if "task_id t \<in> step_id ` set (take k steps)" for t
  proof -
    have "status (task_after ?pre t) = Completed"
      using processSteps_all_ok_completed [OF pre_ok that] .
    moreover have "task_id (task_after ?pre t) \<noteq> step_id (steps ! k)"
      using that k_notin_pre by (auto simp: task_id_task_after)
    ultimately show ?thesis by (simp add: after)
  qed
  have c2: "status (task_after ?effs t) = Error \<and> message (task_after ?effs t) = Some (''Erro: '' @ reason)"
    if "task_id t = step_id (steps ! k)" for t
  proof -
    have "task_after ?pre t = t"
      using task_after_other [of t "take k steps"] that k_notin_pre by simp
    then show ?thesis using that by (simp add: after)
  qed
  have c3: "task_after ?effs t = t"
    if "task_id t \<notin> step_id ` set (take k steps)" "task_id t \<noteq> step_id (steps ! k)" for t
  proof -
    have "task_after ?pre t = t"
      using task_after_other [of t "take k steps"] that by simp
    then show ?thesis using that by (simp add: after)
  qed
  have c4: "task_after ?effs t = t" if "task_id t \<in> step_id ` set (drop (Suc k) steps)" for t
    using c3 [of t] post_notin_pre [OF that] post_not_k [OF that] by simp
  have c5: "task_after ?effs t = t" if "task_id t \<notin> step_id ` set steps" for t
  proof -
    have "task_id t \<notin> step_id ` set (take k steps)" "task_id t \<noteq> step_id (steps ! k)"
      using that set_steps by auto
    then show ?thesis by (rule c3)
  qed
  show ?thesis
    using out urls len c1 c2 c4 c5 by (simp add: tasks_exec)
qed

text \<open>The amended claim C2 at the same run.\<close>

theorem processSteps_abort_witness:
  "snd (processSteps ''c1''
        (\<lambda>n. if n = 0
           then Fulfilled \<lparr>ok = True, statusText = ''OK'', body_text = Fulfilled [], body_json = Fulfilled None\<rparr>
           else Rejected ''network error'') 0 processWithAPI_steps) = Thrown ''network error''
   \<and> fetch_urls (fst (processSteps ''c1''
        (\<lambda>n. if n = 0
           then Fulfilled \<lparr>ok = True, statusText = ''OK'', body_text = Fulfilled [], body_json = Fulfilled None\<rparr>
           else Rejected ''network error'') 0 processWithAPI_steps))
      = [''http://localhost:8000/step1-transcribe/c1'', ''http://localhost:8000/step2-process/c1'']
   \<and> map (\<lambda>t. (task_id t, status t))
     (tasks (exec (fst (processSteps ''c1''
        (\<lambda>n. if n = 0
           then Fulfilled \<lparr>ok = True, statusText = ''OK'', body_text = Fulfilled [], body_json = Fulfilled None\<rparr>
           else Rejected ''network error'') 0 processWithAPI_steps))
      \<lparr>uploadedFiles = [], isProcessing = True, tasks = newTasks_api, currentStep = [], caseId = ''c1''\<rparr>))
   = [(''0'', Pending), (''1'', Completed), (''2'', Error), (''3'', Pending)]"
  using processSteps_abort [of processWithAPI_steps 1
        "\<lambda>n. if n = 0
           then Fulfilled \<lparr>ok = True, statusText = ''OK'', body_text = Fulfilled [], body_json = Fulfilled None\<rparr>
           else Rejected ''network error''"
        "''network error''" "''c1''"
        "\<lparr>uploadedFiles = [], isProcessing = True, tasks = newTasks_api, currentStep = [], caseId = ''c1''\<rparr>"]
  by (simp add: processWithAPI_steps_def newTasks_api_def try_stage_def
      message_or_default_def updateTaskStatus_def stage_url_def API_URL_def)

text \<open>
  Claim C5, as the claim states it, is false. A stage whose operation succeeds and
  supplies the empty string as its message leaves the task with the default message,
  not with the operation's message: \<open>||\<close> takes the empty string for absent.
\<close>

theorem processWithAPI_empty_message_counterexample:
  "try_stage (processWithAPI_steps ! 0)
      (Fulfilled \<lparr>ok = True, statusText = ''OK'', body_text = Fulfilled [], body_json = Fulfilled (Some [])\<rparr>)
     = Inr (Some [])
   \<and> map (\<lambda>t. (task_id t, status t, message t))
     (tasks (exec (fst (processWithAPI ''c1''
        (\<lambda>n. Fulfilled \<lparr>ok = True, statusText = ''OK'', body_text = Fulfilled [], body_json = Fulfilled (Some [])\<rparr>)))
      \<lparr>uploadedFiles = [], isProcessing = True, tasks = newTasks_api, currentStep = [], caseId = ''c1''\<rparr>))
   = [(''0'', Pending, None), (''1'', Completed, Some Concluido),
      (''2'', Completed, Some Concluido), (''3'', Completed, Some Concluido)]
   \<and> Concluido \<noteq> []"
  by (simp add: processWithAPI_def processWithAPI_steps_def newTasks_api_def try_stage_def
      message_or_default_def updateTaskStatus_def Concluido_def)

text \<open>
  Claim C5, amended. For every stage \<open>j\<close> that is reached and whose operation succeeds
  with result message \<open>result_message\<close>: the stage's four effects end with the update of
  its task to completed, with the result message when that is a non-empty string and
  with the default message when it is absent or empty; in the state after them every
  task of the stage is completed with that message; and the runner goes on: the next
  effects are the label, the running update and the \<open>fetch\<close> of stage \<open>j + 1\<close>, or, after
  the last stage, nothing more, the loop returning normally. In the simulated loop the
  timer supplies no message: every stage is its label, the running update, the timer
  and the update to completed with the default message, followed by the next stage.
\<close>

theorem processSteps_stage_success:
  assumes "j < length steps"
    and "\<forall>i<j. \<exists>m. try_stage (steps ! i) (fetch i) = Inr m"
    and "try_stage (steps ! j) (fetch j) = Inr result_message"
  shows "take 4 (drop (4 * j) (fst (processSteps cid fetch 0 steps))) =
       [SetCurrentStep (step_name (steps ! j)),
        UpdateTaskStatus (step_id (steps ! j)) Running (Some (step_name (steps ! j))),
        Fetch (stage_url (steps ! j) cid),
        UpdateTaskStatus (step_id (steps ! j)) Completed
          (Some (case result_message of None \<Rightarrow> Concluido
                 | Some m \<Rightarrow> if m = [] then Concluido else m))]
    \<and> (\<forall>t \<in> set (tasks (exec (take (4 * j + 4) (fst (processSteps cid fetch 0 steps))) s)).
          task_id t = step_id (steps ! j) \<longrightarrow>
          status t = Completed
          \<and> message t = Some (case result_message of None \<Rightarrow> Concluido
                              | Some m \<Rightarrow> if m = [] then Concluido else m))
    \<and> (Suc j < length steps \<longrightarrow>
          take 3 (drop (4 * j + 4) (fst (processSteps cid fetch 0 steps))) =
            [SetCurrentStep (step_name (steps ! Suc j)),
             UpdateTaskStatus (step_id (steps ! Suc j)) Running (Some (step_name (steps ! Suc j))),
             Fetch (stage_url (steps ! Suc j) cid)])
    \<and> (Suc j = length steps \<longrightarrow>
          drop (4 * j + 4) (fst (processSteps cid fetch 0 steps)) = []
          \<and> snd (processSteps cid fetch 0 steps) = Returned)
    \<and> simulateSteps sims =
          concat (map (\<lambda>step. [SetCurrentStep (sim_name step),
                                 UpdateTaskStatus (sim_id step) Running (Some (sim_name step)),
                                 Delay (duration step),
                                 UpdateTaskStatus (sim_id step) Completed (Some Concluido)]) sims)"
proof -
  let ?effs = "fst (processSteps cid fetch 0 steps)"
  let ?msg = "Some (case result_message of None \<Rightarrow> Concluido
                 | Some m \<Rightarrow> if m = [] then Concluido else m)"
  let ?blk = "[SetCurrentStep (step_name (steps ! j)),
        UpdateTaskStatus (step_id (steps ! j)) Running (Some (step_name (steps ! j))),
        Fetch (stage_url (steps ! j) cid),
        UpdateTaskStatus (step_id (steps ! j)) Completed ?msg]"
  have j: "j \<le> length steps" using assms(1) by simp
  have ok: "\<forall>i<j. \<exists>m. try_stage (steps ! i) (fetch (0 + i)) = Inr m" using assms(2) by simp
  have ok': "\<forall>i<Suc j. \<exists>m. try_stage (steps ! i) (fetch (0 + i)) = Inr m"
    using assms(2,3) by (auto simp: less_Suc_eq)
  have d: "drop j steps = steps ! j # drop (Suc j) steps"
    using assms(1) by (simp add: Cons_nth_drop_Suc)
  have this_stage: "try_stage (steps ! j) (fetch (0 + j)) = Inr result_message"
    using assms(3) by simp
  have "drop (4 * j) ?effs = fst (processSteps cid fetch (0 + j) (steps ! j # drop (Suc j) steps))"
    using processSteps_drop [OF j ok, of cid] by (simp only: d)
  also have "\<dots> = ?blk @ fst (processSteps cid fetch (Suc (0 + j)) (drop (Suc j) steps))"
    using this_stage
    by (simp add: processSteps_Cons_ok message_or_default_def del: processSteps.simps)
  finally have dr: "drop (4 * j) ?effs =
      ?blk @ fst (processSteps cid fetch (Suc (0 + j)) (drop (Suc j) steps))" .
  then have a: "take 4 (drop (4 * j) ?effs) = ?blk" by simp
  have "take (4 * j + 4) ?effs = take (4 * j) ?effs @ take 4 (drop (4 * j) ?effs)"
    by (rule take_add)
  then have tk: "take (4 * j + 4) ?effs = take (4 * j) ?effs @ ?blk"
    by (simp only: a)
  have b: "status t = Completed \<and> message t = ?msg"
    if "t \<in> set (tasks (exec (take (4 * j + 4) ?effs) s))" "task_id t = step_id (steps ! j)" for t
    using that unfolding tk exec_append by (auto simp: updateTaskStatus_def)
  have nxt: "drop (4 * j + 4) ?effs = fst (processSteps cid fetch (0 + Suc j) (drop (Suc j) steps))"
    and out: "snd (processSteps cid fetch 0 steps) = snd (processSteps cid fetch (0 + Suc j) (drop (Suc j) steps))"
    using processSteps_drop [of "Suc j" steps fetch 0 cid] assms(1) ok'
    by (simp_all add: add.commute)
  have c: "take 3 (drop (4 * j + 4) ?effs) =
            [SetCurrentStep (step_name (steps ! Suc j)),
             UpdateTaskStatus (step_id (steps ! Suc j)) Running (Some (step_name (steps ! Suc j))),
             Fetch (stage_url (steps ! Suc j) cid)]" if "Suc j < length steps"
  proof -
    have "drop (Suc j) steps = steps ! Suc j # drop (Suc (Suc j)) steps"
      using that by (simp add: Cons_nth_drop_Suc)
    then show ?thesis by (simp only: nxt processSteps_Cons_take3)
  qed
  have e: "drop (4 * j + 4) ?effs = [] \<and> snd (processSteps cid fetch 0 steps) = Returned"
    if "Suc j = length steps"
    using that nxt out by simp
  show ?thesis using a b c e simulateSteps_concat [of sims] by blast
qed

text \<open>Claim C5, amended, at the first stage of a run whose operations all succeed.\<close>

theorem processSteps_stage_success_witness:
  "take 4 (fst (processSteps ''c1''
        (\<lambda>n. Fulfilled \<lparr>ok = True, statusText = ''OK'', body_text = Fulfilled [],
                         body_json = Fulfilled (Some ''Transcrito'')\<rparr>) 0 processWithAPI_steps))
   = [SetCurrentStep (step_name (processWithAPI_steps ! 0)),
      UpdateTaskStatus ''1'' Running (Some (step_name (processWithAPI_steps ! 0))),
      Fetch ''http://localhost:8000/step1-transcribe/c1'',
      UpdateTaskStatus ''1'' Completed (Some ''Transcrito'')]
   \<and> fst (processSteps ''c1''
        (\<lambda>n. Fulfilled \<lparr>ok = True, statusText = ''OK'', body_text = Fulfilled [],
                         body_json = Fulfilled (Some ''Transcrito'')\<rparr>) 0 processWithAPI_steps) ! 6
     = Fetch ''http://localhost:8000/step2-process/c1''"
  using processSteps_stage_success [of 0 processWithAPI_steps
        "\<lambda>n. Fulfilled \<lparr>ok = True, statusText = ''OK'', body_text = Fulfilled [],
                         body_json = Fulfilled (Some ''Transcrito'')\<rparr>"
        "Some ''Transcrito''" "''c1''"
        "\<lparr>uploadedFiles = [], isProcessing = True, tasks = newTasks_api, currentStep = [], caseId = ''c1''\<rparr>"]
  by (simp add: processWithAPI_steps_def try_stage_def message_or_default_def stage_url_def API_URL_def)

text \<open>
  Claim C6. For every stage \<open>j\<close> of \<open>processWithAPI\<close>'s loop that is reached, the
  effect at position \<open>4j\<close> sets the current step label to the stage's name, the effect
  at position \<open>4j + 2\<close> is the \<open>fetch\<close> of the stage's operation, and the state in
  which that \<open>fetch\<close> is issued, the one observed while it is in flight, has the
  stage's name as its label and the stage's task still running (no outcome recorded).
  The same holds of every stage \<open>k\<close> of the simulated loop and its timer.
\<close>

theorem processSteps_label_before_fetch:
  assumes "j < length steps"
    and "\<forall>i<j. \<exists>m. try_stage (steps ! i) (fetch i) = Inr m"
    and "k < length sims"
  shows "4 * j + 2 < length (fst (processSteps cid fetch 0 steps))
    \<and> fst (processSteps cid fetch 0 steps) ! (4 * j) = SetCurrentStep (step_name (steps ! j))
    \<and> fst (processSteps cid fetch 0 steps) ! (4 * j + 2) = Fetch (stage_url (steps ! j) cid)
    \<and> currentStep (states (fst (processSteps cid fetch 0 steps)) s ! (4 * j + 2)) = step_name (steps ! j)
    \<and> (\<forall>t \<in> set (tasks (states (fst (processSteps cid fetch 0 steps)) s ! (4 * j + 2))).
          task_id t = step_id (steps ! j) \<longrightarrow>
          status t = Running \<and> message t = Some (step_name (steps ! j)))
    \<and> 4 * k + 2 < length (simulateSteps sims)
    \<and> simulateSteps sims ! (4 * k) = SetCurrentStep (sim_name (sims ! k))
    \<and> simulateSteps sims ! (4 * k + 2) = Delay (duration (sims ! k))
    \<and> currentStep (states (simulateSteps sims) s' ! (4 * k + 2)) = sim_name (sims ! k)
    \<and> (\<forall>t \<in> set (tasks (states (simulateSteps sims) s' ! (4 * k + 2))).
          task_id t = sim_id (sims ! k) \<longrightarrow>
          status t = Running \<and> message t = Some (sim_name (sims ! k)))"
proof -
  let ?effs = "fst (processSteps cid fetch 0 steps)"
  have ok: "\<forall>i<j. \<exists>m. try_stage (steps ! i) (fetch (0 + i)) = Inr m" using assms(2) by simp
  note blk = processSteps_reached [OF assms(1) ok, of cid]
  note n = take3_nth [OF blk]
  have st: "states ?effs s ! (4 * j + 2) = exec (take (4 * j + 2) ?effs) s"
    using n(4) by (simp add: states_nth)
  have ex: "exec (take (4 * j + 2) ?effs) s =
      exec [SetCurrentStep (step_name (steps ! j)),
            UpdateTaskStatus (step_id (steps ! j)) Running (Some (step_name (steps ! j)))]
        (exec (take (4 * j) ?effs) s)"
    by (simp only: n(5) exec_append)
  have cur: "currentStep (states ?effs s ! (4 * j + 2)) = step_name (steps ! j)"
    unfolding st ex by simp
  have run: "status t = Running \<and> message t = Some (step_name (steps ! j))"
    if "t \<in> set (tasks (states ?effs s ! (4 * j + 2)))" "task_id t = step_id (steps ! j)" for t
    using that unfolding st ex by (auto simp: updateTaskStatus_def)
  let ?sim = "simulateSteps sims"
  note n' = take3_nth [OF simulateSteps_reached [OF assms(3)]]
  have st': "states ?sim s' ! (4 * k + 2) = exec (take (4 * k + 2) ?sim) s'"
    using n'(4) by (simp add: states_nth)
  have ex': "exec (take (4 * k + 2) ?sim) s' =
      exec [SetCurrentStep (sim_name (sims ! k)),
            UpdateTaskStatus (sim_id (sims ! k)) Running (Some (sim_name (sims ! k)))]
        (exec (take (4 * k) ?sim) s')"
    by (simp only: n'(5) exec_append)
  have cur': "currentStep (states ?sim s' ! (4 * k + 2)) = sim_name (sims ! k)"
    unfolding st' ex' by simp
  have run': "status t = Running \<and> message t = Some (sim_name (sims ! k))"
    if "t \<in> set (tasks (states ?sim s' ! (4 * k + 2)))" "task_id t = sim_id (sims ! k)" for t
    using that unfolding st' ex' by (auto simp: updateTaskStatus_def)
  show ?thesis using n(1,3,4) cur run n'(1,3,4) cur' run' by simp
qed

text \<open>
  Claim C6 at the second stage of a run of \<open>processWithAPI\<close> whose operations all
  succeed, and at the second stage of \<open>simulateProcessing\<close>.
\<close>

theorem processSteps_label_before_fetch_witness:
  "fst (processSteps ''c1''
        (\<lambda>n. Fulfilled \<lparr>ok = True, statusText = ''OK'', body_text = Fulfilled [],
                         body_json = Fulfilled None\<rparr>) 0 processWithAPI_steps) ! 6
     = Fetch ''http://localhost:8000/step2-process/c1''
   \<and> currentStep (states (fst (processSteps ''c1''
        (\<lambda>n. Fulfilled \<lparr>ok = True, statusText = ''OK'', body_text = Fulfilled [],
                         body_json = Fulfilled None\<rparr>) 0 processWithAPI_steps))
      \<lparr>uploadedFiles = [], isProcessing = True, tasks = newTasks_api, currentStep = [], caseId = ''c1''\<rparr> ! 6)
     = ''Processando com Gemini...''
   \<and> map (\<lambda>t. (task_id t, status t)) (tasks (states (fst (processSteps ''c1''
        (\<lambda>n. Fulfilled \<lparr>ok = True, statusText = ''OK'', body_text = Fulfilled [],
                         body_json = Fulfilled None\<rparr>) 0 processWithAPI_steps))
      \<lparr>uploadedFiles = [], isProcessing = True, tasks = newTasks_api, currentStep = [], caseId = ''c1''\<rparr> ! 6))
     = [(''0'', Pending), (''1'', Completed), (''2'', Running), (''3'', Pending)]
   \<and> simulateSteps simulateProcessing_steps ! 6 = Delay 3000
   \<and> currentStep (states (simulateSteps simulateProcessing_steps)
      \<lparr>uploadedFiles = [], isProcessing = True, tasks = newTasks_page, currentStep = [], caseId = []\<rparr> ! 6)
     = sim_name (simulateProcessing_steps ! 1)"
  using processSteps_label_before_fetch [of 1 processWithAPI_steps
        "\<lambda>n. Fulfilled \<lparr>ok = True, statusText = ''OK'', body_text = Fulfilled [],
                         body_json = Fulfilled None\<rparr>"
        1 simulateProcessing_steps
        "''c1''"
        "\<lparr>uploadedFiles = [], isProcessing = True, tasks = newTasks_api, currentStep = [], caseId = ''c1''\<rparr>"
        "\<lparr>uploadedFiles = [], isProcessing = True, tasks = newTasks_page, currentStep = [], caseId = []\<rparr>"]
  by (simp add: processWithAPI_steps_def simulateProcessing_steps_def newTasks_api_def newTasks_page_def
      try_stage_def message_or_default_def stage_url_def API_URL_def updateTaskStatus_def)

section \<open>Properties of the rounding\<close>

lemma ilog2_bounds:
  "0 < x \<Longrightarrow> 2 powi (ilog2 x) \<le> x \<and> x < 2 powi (ilog2 x + 1)"
proof (induction x rule: ilog2.induct)
  case (1 x)
  show ?case
  proof (cases "2 \<le> x")
    case True
    then have "0 < x / 2" by simp
    with 1 True have ih: "2 powi (ilog2 (x / 2)) \<le> x / 2 \<and> x / 2 < 2 powi (ilog2 (x / 2) + 1)"
      by simp
    have e: "ilog2 x = ilog2 (x / 2) + 1" using True by (subst ilog2.simps) simp
    define P where "P = (2::rat) powi (ilog2 (x / 2))"
    have p1: "(2::rat) powi (ilog2 (x / 2) + 1) = P * 2"
      and p2: "(2::rat) powi (ilog2 (x / 2) + 1 + 1) = P * 2 * 2"
      by (simp_all add: power_int_add P_def)
    have "P \<le> x / 2" "x / 2 < P * 2" using ih by (simp_all only: p1 P_def [symmetric])
    then have "P * 2 \<le> x \<and> x < P * 2 * 2" by linarith
    then show ?thesis by (simp only: e p1 p2)
  next
    case False
    show ?thesis
    proof (cases "x < 1")
      case True
      with 1 False have ih: "2 powi (ilog2 (x * 2)) \<le> x * 2 \<and> x * 2 < 2 powi (ilog2 (x * 2) + 1)"
        by simp
      have e: "ilog2 x = ilog2 (x * 2) - 1" using True 1(3) False by (subst ilog2.simps) simp
      define P where "P = (2::rat) powi (ilog2 (x * 2) - 1)"
      have p1: "(2::rat) powi (ilog2 (x * 2)) = P * 2"
        and p2: "(2::rat) powi (ilog2 (x * 2) + 1) = P * 2 * 2"
        and p3: "(2::rat) powi (ilog2 (x * 2) - 1 + 1) = P * 2"
        by (simp_all add: power_int_add power_int_diff P_def)
      have "P * 2 \<le> x * 2" "x * 2 < P * 2 * 2" using ih by (simp_all only: p1 p2)
      then have "P \<le> x \<and> x < P * 2" by linarith
      then show ?thesis by (simp only: e p3 P_def [symmetric])
    next
      case False
      with \<open>\<not> 2 \<le> x\<close> 1(3) have "ilog2 x = 0" by (subst ilog2.simps) simp
      then show ?thesis using False \<open>\<not> 2 \<le> x\<close> by simp
    qed
  qed
qed

lemma ilog2_mono:
  assumes "0 < x" "x \<le> y"
  shows "ilog2 x \<le> ilog2 y"
proof (rule ccontr)
  assume "\<not> ilog2 x \<le> ilog2 y"
  then have "ilog2 y + 1 \<le> ilog2 x" by simp
  then have "(2::rat) powi (ilog2 y + 1) \<le> 2 powi (ilog2 x)"
    by (intro power_int_increasing) simp_all
  moreover have "y < 2 powi (ilog2 y + 1)" using ilog2_bounds [of y] assms by simp
  moreover have "2 powi (ilog2 x) \<le> x" using ilog2_bounds [of x] assms by simp
  ultimately show False using assms(2) by linarith
qed

lemma round_half_even_bounds:
  "\<lfloor>x\<rfloor> \<le> round_half_even x \<and> round_half_even x \<le> \<lfloor>x\<rfloor> + 1"
  by (simp add: round_half_even_def Let_def)

lemma round_half_even_of_int: "round_half_even (of_int n) = n"
  by (simp add: round_half_even_def)

lemma round_half_even_mono:
  assumes "x \<le> y"
  shows "round_half_even x \<le> round_half_even y"
proof (cases "\<lfloor>x\<rfloor> = \<lfloor>y\<rfloor>")
  case True
  have "x - of_int \<lfloor>x\<rfloor> \<le> y - of_int \<lfloor>y\<rfloor>" using assms True by simp
  then show ?thesis using True by (auto simp: round_half_even_def Let_def)
next
  case False
  have "\<lfloor>x\<rfloor> \<le> \<lfloor>y\<rfloor>" using assms by (rule floor_mono)
  with False have "\<lfloor>x\<rfloor> + 1 \<le> \<lfloor>y\<rfloor>" by simp
  then show ?thesis
    using round_half_even_bounds [of x] round_half_even_bounds [of y] by linarith
qed

lemma rne_nonneg:
  assumes "0 \<le> x"
  shows "0 \<le> rne x"
proof -
  have "0 \<le> round_half_even (x / 2 powi e)" for e
  proof -
    have "of_int 0 \<le> x / 2 powi e" using assms by simp
    then have "round_half_even (of_int 0) \<le> round_half_even (x / 2 powi e)"
      by (rule round_half_even_mono)
    then show ?thesis by (simp only: round_half_even_of_int)
  qed
  then show ?thesis by (simp add: rne_def Let_def)
qed

lemma rne_mono:
  assumes "0 \<le> x" "x \<le> y"
  shows "rne x \<le> rne y"
proof (cases "x = 0")
  case True
  then show ?thesis using rne_nonneg [of y] assms by (simp add: rne_def)
next
  case False
  then have x: "0 < x" and y: "0 < y" using assms by simp_all
  define ex where "ex = max (ilog2 x) (- 1022)"
  define ey where "ey = max (ilog2 y) (- 1022)"
  have rx: "rne x = of_int (round_half_even (x / 2 powi (ex - 52))) * 2 powi (ex - 52)"
    using x by (simp add: rne_def ex_def Let_def)
  have ry: "rne y = of_int (round_half_even (y / 2 powi (ey - 52))) * 2 powi (ey - 52)"
    using y by (simp add: rne_def ey_def Let_def)
  have le: "ex \<le> ey" using ilog2_mono [OF x assms(2)] by (simp add: ex_def ey_def)
  show ?thesis
  proof (cases "ex = ey")
    case True
    have "x / 2 powi (ey - 52) \<le> y / 2 powi (ey - 52)"
      using assms(2) by (simp add: divide_right_mono)
    then have "round_half_even (x / 2 powi (ey - 52)) \<le> round_half_even (y / 2 powi (ey - 52))"
      by (rule round_half_even_mono)
    then show ?thesis by (simp add: rx ry True)
  next
    case False
    with le have lt: "ex + 1 \<le> ey" by simp
    then have ey': "ey = ilog2 y" by (auto simp: ey_def ex_def max_def split: if_splits)
    have "x < 2 powi (ilog2 x + 1)" using ilog2_bounds [OF x] by simp
    also have "\<dots> \<le> 2 powi (ex + 1)" by (intro power_int_increasing) (simp_all add: ex_def)
    finally have xb: "x < 2 powi (ex + 1)" .
    have s53: "(2::rat) powi (ex + 1) = 2 powi (ex - 52) * 2 powi 53"
    proof -
      have "(2::rat) powi (ex + 1) = 2 powi ((ex - 52) + 53)"
        by (rule arg_cong [of _ _ "power_int 2"]) simp
      also have "\<dots> = 2 powi (ex - 52) * 2 powi 53" by (rule power_int_add) simp
      finally show ?thesis .
    qed
    have s52: "(2::rat) powi ey = 2 powi (ey - 52) * 2 powi 52"
    proof -
      have "(2::rat) powi ey = 2 powi ((ey - 52) + 52)"
        by (rule arg_cong [of _ _ "power_int 2"]) simp
      also have "\<dots> = 2 powi (ey - 52) * 2 powi 52" by (rule power_int_add) simp
      finally show ?thesis .
    qed
    have "x / 2 powi (ex - 52) \<le> 2 powi (ex + 1) / 2 powi (ex - 52)"
      using xb by (simp add: divide_right_mono)
    also have "\<dots> = of_int (2 ^ 53)" by (simp add: s53)
    finally have "round_half_even (x / 2 powi (ex - 52)) \<le> round_half_even (of_int (2 ^ 53))"
      by (rule round_half_even_mono)
    then have "round_half_even (x / 2 powi (ex - 52)) \<le> 2 ^ 53"
      by (simp only: round_half_even_of_int)
    then have "(of_int (round_half_even (x / 2 powi (ex - 52))) :: rat) \<le> of_int (2 ^ 53)"
      by (simp only: of_int_le_iff)
    then have "rne x \<le> of_int (2 ^ 53) * 2 powi (ex - 52)"
      unfolding rx by (rule mult_right_mono) simp
    also have "\<dots> = (2::rat) powi (ex + 1)" by (simp add: s53)
    also have "\<dots> \<le> 2 powi ey" using lt by (intro power_int_increasing) simp_all
    finally have up: "rne x \<le> 2 powi ey" .
    have "2 powi ey \<le> y" using ilog2_bounds [OF y] by (simp add: ey')
    then have "2 powi ey / 2 powi (ey - 52) \<le> y / 2 powi (ey - 52)"
      by (simp add: divide_right_mono)
    moreover have "(2::rat) powi ey / 2 powi (ey - 52) = of_int (2 ^ 52)" by (simp add: s52)
    ultimately have "of_int (2 ^ 52) \<le> y / 2 powi (ey - 52)" by simp
    then have "round_half_even (of_int (2 ^ 52)) \<le> round_half_even (y / 2 powi (ey - 52))"
      by (rule round_half_even_mono)
    then have "2 ^ 52 \<le> round_half_even (y / 2 powi (ey - 52))"
      by (simp only: round_half_even_of_int)
    then have "(of_int (2 ^ 52) :: rat) \<le> of_int (round_half_even (y / 2 powi (ey - 52)))"
      by (simp only: of_int_le_iff)
    then have "of_int (2 ^ 52) * 2 powi (ey - 52) \<le> rne y"
      unfolding ry by (rule mult_right_mono) simp
    moreover have "of_int (2 ^ 52) * 2 powi (ey - 52) = (2::rat) powi ey" by (simp add: s52)
    ultimately have "2 powi ey \<le> rne y" by simp
    with up show ?thesis by simp
  qed
qed

lemma rne_1: "rne 1 = 1"
  by code_simp

lemma rne_100: "rne 100 = 100"
  by code_simp

section \<open>Properties of the status card\<close>

lemma Math_round_mono: "x \<le> y \<Longrightarrow> Math_round x \<le> Math_round y"
  by (simp add: Math_round_def floor_mono)

lemma Math_round_0: "Math_round 0 = 0"
  by (simp add: Math_round_def floor_eq_iff)

lemma Math_round_100: "Math_round 100 = 100"
  by (simp add: Math_round_def floor_eq_iff)

lemma completedTasks_counts:
  "completedTasks ts = card {i. i < length ts \<and> status (ts ! i) = Completed}"
  by (simp add: completedTasks_def length_filter_conv_card)

lemma progress_percent_empty: "totalTasks ts = 0 \<Longrightarrow> progress_percent ts = 0"
  by (simp add: progress_percent_def progress_def Math_round_0)

lemma progress_range: "0 \<le> progress ts \<and> progress ts \<le> 100"
proof (cases "totalTasks ts = 0")
  case True
  then show ?thesis by (simp add: progress_def)
next
  case False
  define n :: rat where "n = of_nat (totalTasks ts)"
  define c :: rat where "c = of_nat (completedTasks ts)"
  have n: "0 < n" using False by (simp add: n_def)
  have "completedTasks ts \<le> totalTasks ts" by (simp add: completedTasks_def totalTasks_def)
  then have c: "0 \<le> c" "c \<le> n" by (simp_all add: c_def n_def)
  then have q: "0 \<le> c / n" "c / n \<le> 1" using n by simp_all
  have r0: "0 \<le> rne (c / n)" using q(1) by (rule rne_nonneg)
  have "rne (c / n) \<le> rne 1" using q by (rule rne_mono)
  then have r1: "rne (c / n) \<le> 1" by (simp add: rne_1)
  have p0: "0 \<le> rne (c / n) * 100" using r0 by simp
  have "rne (c / n) * 100 \<le> 100" using r1 by simp
  with p0 have "rne (rne (c / n) * 100) \<le> rne 100" by (rule rne_mono)
  then have "rne (rne (c / n) * 100) \<le> 100" by (simp add: rne_100)
  moreover have "0 \<le> rne (rne (c / n) * 100)" using p0 by (rule rne_nonneg)
  ultimately show ?thesis
    using False by (simp add: progress_def fmul_def fdiv_def n_def c_def)
qed

lemma progress_percent_range: "0 \<le> progress_percent ts \<and> progress_percent ts \<le> 100"
proof -
  have "0 \<le> progress ts" "progress ts \<le> 100" using progress_range [of ts] by simp_all
  then have "Math_round 0 \<le> Math_round (progress ts)" "Math_round (progress ts) \<le> Math_round 100"
    by (simp_all add: Math_round_mono)
  then show ?thesis by (simp add: progress_percent_def Math_round_0 Math_round_100)
qed

lemma progress_bar_width_eq: "progress_bar_width ts = progress ts"
  using progress_range [of ts] by (simp add: progress_bar_width_def)

lemma progress_mono:
  assumes "length ts = length ts'" "completedTasks ts \<le> completedTasks ts'"
  shows "progress ts \<le> progress ts'"
proof (cases "length ts = 0")
  case True
  then show ?thesis using assms(1) by (simp add: progress_def totalTasks_def)
next
  case False
  define n :: rat where "n = of_nat (length ts)"
  define c :: rat where "c = of_nat (completedTasks ts)"
  define c' :: rat where "c' = of_nat (completedTasks ts')"
  have n: "0 < n" using False by (simp add: n_def)
  have c: "0 \<le> c" "c \<le> c'" using assms(2) by (simp_all add: c_def c'_def)
  have q: "0 \<le> c / n" "c / n \<le> c' / n" using n c by (simp_all add: divide_right_mono)
  then have r: "rne (c / n) \<le> rne (c' / n)" by (rule rne_mono)
  have "0 \<le> rne (c / n)" using q(1) by (rule rne_nonneg)
  then have "0 \<le> rne (c / n) * 100" "rne (c / n) * 100 \<le> rne (c' / n) * 100"
    using r by simp_all
  then have "rne (rne (c / n) * 100) \<le> rne (rne (c' / n) * 100)" by (rule rne_mono)
  then show ?thesis
    using False assms(1)
    by (simp add: progress_def totalTasks_def fmul_def fdiv_def n_def c_def c'_def)
qed

lemma progress_percent_mono:
  "length ts = length ts' \<Longrightarrow> completedTasks ts \<le> completedTasks ts' \<Longrightarrow>
   progress_percent ts \<le> progress_percent ts'"
  by (simp add: progress_percent_def Math_round_mono progress_mono)

lemma progress_bar_width_mono:
  "length ts = length ts' \<Longrightarrow> completedTasks ts \<le> completedTasks ts' \<Longrightarrow>
   progress_bar_width ts \<le> progress_bar_width ts'"
  using progress_mono [of ts ts'] by (simp add: progress_bar_width_def min_def max_def)

text \<open>
  The two instances the specification lists: two of four tasks completed give 50, and
  an empty list gives 0.
\<close>

lemma progress_percent_examples:
  "progress_percent
     [\<lparr>task_id = ''1'', task_name = ''A'', status = Completed, message = None\<rparr>,
      \<lparr>task_id = ''2'', task_name = ''B'', status = Completed, message = None\<rparr>,
      \<lparr>task_id = ''3'', task_name = ''C'', status = Error, message = None\<rparr>,
      \<lparr>task_id = ''4'', task_name = ''D'', status = Pending, message = None\<rparr>] = 50"
  "progress_percent [] = 0"
  by code_simp+

text \<open>
  Claim C3 against the code. The counts are the lengths the claim names, but the
  percentage is \<open>Math.round\<close> of the binary64 product \<open>(completedTasks / totalTasks) * 100\<close>,
  and the two roundings of the quotient and the product can land below a half that the
  exact \<open>100 * completedTasks / totalTasks\<close> reaches. On a list of 40 tasks of which 23
  are completed the product is \<open>8092405580431359 / 2 ^ 47\<close> (57.49999999999999), printed
  as 57, where \<open>round(100 * 23 / 40) = round(57.5) = 58\<close>.
\<close>

theorem progress_percent_rounding_example:
  "completedTasks
     (replicate 23 \<lparr>task_id = ''t'', task_name = ''T'', status = Completed, message = Some Concluido\<rparr>
      @ replicate 17 \<lparr>task_id = ''u'', task_name = ''U'', status = Pending, message = None\<rparr>) = 23
   \<and> totalTasks
     (replicate 23 \<lparr>task_id = ''t'', task_name = ''T'', status = Completed, message = Some Concluido\<rparr>
      @ replicate 17 \<lparr>task_id = ''u'', task_name = ''U'', status = Pending, message = None\<rparr>) = 40
   \<and> progress
     (replicate 23 \<lparr>task_id = ''t'', task_name = ''T'', status = Completed, message = Some Concluido\<rparr>
      @ replicate 17 \<lparr>task_id = ''u'', task_name = ''U'', status = Pending, message = None\<rparr>)
     = 8092405580431359 / 2 ^ 47
   \<and> progress_percent
     (replicate 23 \<lparr>task_id = ''t'', task_name = ''T'', status = Completed, message = Some Concluido\<rparr>
      @ replicate 17 \<lparr>task_id = ''u'', task_name = ''U'', status = Pending, message = None\<rparr>) = 57
   \<and> percent_spec 23 40 = 58"
  by code_simp

section \<open>Progress along a run\<close>

lemma completedTasks_update:
  "\<forall>t \<in> set ts. task_id t = i \<longrightarrow> status t \<noteq> Completed \<Longrightarrow>
   completedTasks ts \<le> completedTasks (updateTaskStatus i st m ts)"
  by (induction ts) (auto simp: completedTasks_def updateTaskStatus_def)

lemma sorted_states_Cons:
  fixes f :: "Home \<Rightarrow> 'a::linorder"
  shows "sorted (map f (states (e # es) s)) \<longleftrightarrow>
     f s \<le> f (apply_effect e s) \<and> sorted (map f (states es (apply_effect e s)))"
  by (cases es) auto

lemma sorted_states_append:
  fixes f :: "Home \<Rightarrow> 'a::linorder"
  shows "sorted (map f (states (a @ b) s)) \<longleftrightarrow>
     sorted (map f (states a s)) \<and> sorted (map f (states b (exec a s)))"
proof (induction a arbitrary: s)
  case Nil
  show ?case by simp
next
  case (Cons e a)
  show ?case
    using Cons.IH [of "apply_effect e s"]
    by (simp add: sorted_states_Cons del: states.simps)
qed

lemma length_tasks_states:
  "x \<in> set (states effs s) \<Longrightarrow> length (tasks x) = length (tasks s)"
proof (induction effs arbitrary: s)
  case Nil
  then show ?case by simp
next
  case (Cons e effs)
  have "length (tasks (apply_effect e s)) = length (tasks s)"
    by (cases e) (simp_all add: updateTaskStatus_length)
  then show ?case using Cons by auto
qed

lemma sorted_progress_of_completed:
  assumes "sorted (map (\<lambda>x. completedTasks (tasks x)) (states effs s))"
    and g: "\<And>ts ts'. length ts = length ts' \<Longrightarrow> completedTasks ts \<le> completedTasks ts' \<Longrightarrow> g ts \<le> g ts'"
  shows "sorted (map (\<lambda>x. g (tasks x)) (states effs s))"
proof -
  have "sorted_wrt (\<lambda>x y. completedTasks (tasks x) \<le> completedTasks (tasks y)) (states effs s)"
    using assms(1) by (simp add: sorted_map)
  then have "sorted_wrt (\<lambda>x y. g (tasks x) \<le> g (tasks y)) (states effs s)"
  proof (rule sorted_wrt_mono_rel [rotated])
    fix x y
    assume "x \<in> set (states effs s)" "y \<in> set (states effs s)"
      and "completedTasks (tasks x) \<le> completedTasks (tasks y)"
    then show "g (tasks x) \<le> g (tasks y)"
      using length_tasks_states [of x effs s] length_tasks_states [of y effs s] g by simp
  qed
  then show ?thesis by (simp add: sorted_map)
qed

lemma running_not_completed:
  "\<forall>t \<in> set (updateTaskStatus i Running m ts). task_id t = i \<longrightarrow> status t \<noteq> Completed"
proof (intro ballI impI)
  fix t
  assume "t \<in> set (updateTaskStatus i Running m ts)" "task_id t = i"
  then show "status t \<noteq> Completed"
    using updateTaskStatus_member [of t i Running m ts] by (auto split: if_splits)
qed

lemma stage_block_sorted:
  assumes "\<forall>t \<in> set (tasks s). task_id t = i \<longrightarrow> status t \<noteq> Completed"
    and "\<And>x. tasks (apply_effect wait x) = tasks x"
  shows "sorted (map (\<lambda>x. completedTasks (tasks x))
           (states [SetCurrentStep l, UpdateTaskStatus i Running m1, wait, UpdateTaskStatus i st m2] s))"
  using completedTasks_update [OF assms(1), of Running m1]
    completedTasks_update [OF running_not_completed, of i m1 "tasks s" st m2]
  by (simp add: assms(2))

lemma stage_block_keeps:
  assumes "i \<notin> I"
    and "\<forall>t \<in> set (tasks s). task_id t \<in> I \<longrightarrow> status t \<noteq> Completed"
    and "\<And>x. tasks (apply_effect wait x) = tasks x"
  shows "\<forall>t \<in> set (tasks (exec [SetCurrentStep l, UpdateTaskStatus i Running m1, wait,
            UpdateTaskStatus i st m2] s)). task_id t \<in> I \<longrightarrow> status t \<noteq> Completed"
proof (intro ballI impI)
  fix t
  assume t: "t \<in> set (tasks (exec [SetCurrentStep l, UpdateTaskStatus i Running m1, wait,
            UpdateTaskStatus i st m2] s))" and I: "task_id t \<in> I"
  from t have "t \<in> set (updateTaskStatus i st m2 (updateTaskStatus i Running m1 (tasks s)))"
    by (simp add: assms(3))
  then obtain t1 where t1: "t1 \<in> set (updateTaskStatus i Running m1 (tasks s))"
      "task_id t = task_id t1" "if task_id t1 = i then status t = st \<and> message t = m2 else t = t1"
    using updateTaskStatus_member by blast
  then obtain t0 where t0: "t0 \<in> set (tasks s)"
      "task_id t1 = task_id t0" "if task_id t0 = i then status t1 = Running \<and> message t1 = m1 else t1 = t0"
    using updateTaskStatus_member by blast
  have "task_id t0 \<noteq> i" using I assms(1) t1(2) t0(2) by auto
  then have "t = t0" using t1 t0 by (auto split: if_splits)
  then show "status t \<noteq> Completed" using t0(1) I assms(2) by auto
qed

lemma processSteps_completed_sorted:
  assumes "distinct (map step_id steps)"
    and "\<forall>t \<in> set (tasks s). task_id t \<in> step_id ` set steps \<longrightarrow> status t \<noteq> Completed"
  shows "sorted (map (\<lambda>x. completedTasks (tasks x)) (states (fst (processSteps cid fetch n steps)) s))"
  using assms
proof (induction steps arbitrary: n s)
  case Nil
  show ?case by simp
next
  case (Cons step rest)
  have own: "\<forall>t \<in> set (tasks s). task_id t = step_id step \<longrightarrow> status t \<noteq> Completed"
    using Cons.prems(2) by simp
  have others: "\<forall>t \<in> set (tasks s). task_id t \<in> step_id ` set rest \<longrightarrow> status t \<noteq> Completed"
    using Cons.prems(2) by simp
  have notin: "step_id step \<notin> step_id ` set rest" and dist: "distinct (map step_id rest)"
    using Cons.prems(1) by simp_all
  have wait: "\<And>x. tasks (apply_effect (Fetch (stage_url step cid)) x) = tasks x" by simp
  show ?case
  proof (cases "try_stage step (fetch n)")
    case (Inl r)
    then show ?thesis
      using stage_block_sorted [OF own wait]
      by (simp only: processSteps_Cons_fail fst_conv)
  next
    case (Inr m)
    have "sorted (map (\<lambda>x. completedTasks (tasks x))
        (states (fst (processSteps cid fetch (Suc n) rest))
          (exec [SetCurrentStep (step_name step),
                 UpdateTaskStatus (step_id step) Running (Some (step_name step)),
                 Fetch (stage_url step cid),
                 UpdateTaskStatus (step_id step) Completed (Some (message_or_default m))] s)))"
      using Cons.IH [OF dist stage_block_keeps [OF notin others wait]] .
    then show ?thesis
      using stage_block_sorted [OF own wait] Inr
      by (simp only: processSteps_Cons_ok fst_conv sorted_states_append simp_thms)
  qed
qed

lemma simulateSteps_completed_sorted:
  assumes "distinct (map sim_id steps)"
    and "\<forall>t \<in> set (tasks s). task_id t \<in> sim_id ` set steps \<longrightarrow> status t \<noteq> Completed"
  shows "sorted (map (\<lambda>x. completedTasks (tasks x)) (states (simulateSteps steps) s))"
  using assms
proof (induction steps arbitrary: s)
  case Nil
  show ?case by simp
next
  case (Cons step rest)
  have own: "\<forall>t \<in> set (tasks s). task_id t = sim_id step \<longrightarrow> status t \<noteq> Completed"
    using Cons.prems(2) by simp
  have others: "\<forall>t \<in> set (tasks s). task_id t \<in> sim_id ` set rest \<longrightarrow> status t \<noteq> Completed"
    using Cons.prems(2) by simp
  have notin: "sim_id step \<notin> sim_id ` set rest" and dist: "distinct (map sim_id rest)"
    using Cons.prems(1) by simp_all
  have wait: "\<And>x. tasks (apply_effect (Delay (duration step)) x) = tasks x" by simp
  have "sorted (map (\<lambda>x. completedTasks (tasks x))
      (states (simulateSteps rest)
        (exec [SetCurrentStep (sim_name step),
               UpdateTaskStatus (sim_id step) Running (Some (sim_name step)),
               Delay (duration step),
               UpdateTaskStatus (sim_id step) Completed (Some Concluido)] s)))"
    using Cons.IH [OF dist stage_block_keeps [OF notin others wait]] .
  then show ?case
    using stage_block_sorted [OF own wait]
    by (simp only: simulateSteps.simps sorted_states_append simp_thms)
qed

lemma label_sorted:
  fixes g :: "Task list \<Rightarrow> 'a::linorder"
  shows "sorted (map (\<lambda>x. g (tasks x)) (states [SetCurrentStep l] s))"
  by simp

lemma simulateProcessing_completed_sorted:
  assumes "\<forall>t \<in> set (tasks s). task_id t \<in> sim_id ` set simulateProcessing_steps \<longrightarrow> status t \<noteq> Completed"
  shows "sorted (map (\<lambda>x. completedTasks (tasks x)) (states simulateProcessing s))"
proof -
  have "distinct (map sim_id simulateProcessing_steps)"
    by (simp add: simulateProcessing_steps_def)
  then show ?thesis
    using simulateSteps_completed_sorted [OF _ assms] label_sorted
    by (simp only: simulateProcessing_def sorted_states_append simp_thms)
qed

lemma processWithAPI_completed_sorted:
  assumes "\<forall>t \<in> set (tasks s). task_id t \<in> step_id ` set processWithAPI_steps \<longrightarrow> status t \<noteq> Completed"
  shows "sorted (map (\<lambda>x. completedTasks (tasks x)) (states (fst (processWithAPI cid fetch)) s))"
proof -
  have "distinct (map step_id processWithAPI_steps)"
    by (simp add: processWithAPI_steps_def)
  then have run: "sorted (map (\<lambda>x. completedTasks (tasks x))
      (states (fst (processSteps cid fetch 0 processWithAPI_steps)) s))"
    using processSteps_completed_sorted [OF _ assms] by simp
  obtain effs out where p: "processSteps cid fetch 0 processWithAPI_steps = (effs, out)"
    by (cases "processSteps cid fetch 0 processWithAPI_steps")
  show ?thesis
  proof (cases out)
    case Returned
    then have "fst (processWithAPI cid fetch) = effs @ [SetCurrentStep success_label]"
      by (simp add: processWithAPI_def p)
    then show ?thesis using run label_sorted by (simp only: p fst_conv sorted_states_append simp_thms)
  next
    case (Thrown m)
    then have "fst (processWithAPI cid fetch) = effs"
      by (simp add: processWithAPI_def p)
    then show ?thesis using run by (simp only: p fst_conv)
  qed
qed

text \<open>
  Claim C4. A run of either runner starts after \<open>initializeTasks\<close>, in a state where
  no task addressed by a stage is completed. From every such state, the percentage
  printed and the width of the bar are non-decreasing along the states the run passes
  through, one state per effect of the run.
\<close>

theorem progress_monotone_within_run:
  assumes "\<forall>t \<in> set (tasks s). task_id t \<in> sim_id ` set simulateProcessing_steps \<longrightarrow> status t \<noteq> Completed"
    and "\<forall>t \<in> set (tasks s'). task_id t \<in> step_id ` set processWithAPI_steps \<longrightarrow> status t \<noteq> Completed"
  shows "sorted (map (\<lambda>x. progress_percent (tasks x)) (states simulateProcessing s))
    \<and> sorted (map (\<lambda>x. progress_bar_width (tasks x)) (states simulateProcessing s))
    \<and> sorted (map (\<lambda>x. progress_percent (tasks x)) (states (fst (processWithAPI cid fetch)) s'))
    \<and> sorted (map (\<lambda>x. progress_bar_width (tasks x)) (states (fst (processWithAPI cid fetch)) s'))"
  using sorted_progress_of_completed [OF simulateProcessing_completed_sorted [OF assms(1)], of progress_percent]
    sorted_progress_of_completed [OF simulateProcessing_completed_sorted [OF assms(1)], of progress_bar_width]
    sorted_progress_of_completed [OF processWithAPI_completed_sorted [OF assms(2)], of progress_percent]
    sorted_progress_of_completed [OF processWithAPI_completed_sorted [OF assms(2)], of progress_bar_width]
    progress_percent_mono progress_bar_width_mono
  by blast

text \<open>
  Claim C4 at the runs from the freshly initialised task lists; the simulated run
  starts at 0 and ends at 100.
\<close>

theorem progress_monotone_within_run_witness:
  "sorted (map (\<lambda>x. progress_percent (tasks x)) (states simulateProcessing
     \<lparr>uploadedFiles = [], isProcessing = True, tasks = newTasks_page, currentStep = [], caseId = []\<rparr>))
   \<and> progress_percent (tasks
     \<lparr>uploadedFiles = [], isProcessing = True, tasks = newTasks_page, currentStep = [], caseId = []\<rparr>) = 0
   \<and> progress_percent (tasks (exec simulateProcessing
     \<lparr>uploadedFiles = [], isProcessing = True, tasks = newTasks_page, currentStep = [], caseId = []\<rparr>)) = 100
   \<and> sorted (map (\<lambda>x. progress_percent (tasks x))
       (states (fst (processWithAPI ''c1''
           (\<lambda>n. Fulfilled \<lparr>ok = True, statusText = ''OK'', body_text = Fulfilled [], body_json = Fulfilled None\<rparr>)))
         \<lparr>uploadedFiles = [], isProcessing = True, tasks = newTasks_api, currentStep = [], caseId = ''c1''\<rparr>))"
proof -
  let ?s = "\<lparr>uploadedFiles = [], isProcessing = True, tasks = newTasks_page, currentStep = [], caseId = []\<rparr>"
  let ?s' = "\<lparr>uploadedFiles = [], isProcessing = True, tasks = newTasks_api, currentStep = [], caseId = ''c1''\<rparr>"
  have h1: "\<forall>t \<in> set (tasks ?s). task_id t \<in> sim_id ` set simulateProcessing_steps \<longrightarrow> status t \<noteq> Completed"
    by (simp add: newTasks_page_def)
  have h2: "\<forall>t \<in> set (tasks ?s'). task_id t \<in> step_id ` set processWithAPI_steps \<longrightarrow> status t \<noteq> Completed"
    by (simp add: newTasks_api_def)
  have v: "progress_percent (tasks ?s) = 0" "progress_percent (tasks (exec simulateProcessing ?s)) = 100"
    by code_simp+
  show ?thesis
    using progress_monotone_within_run [OF h1 h2] v by blast
qed

section \<open>Properties of the upload zone\<close>

lemma FileType_neq: "(ty \<noteq> Processo) = (ty = Audiencia)" "(ty \<noteq> Audiencia) = (ty = Processo)"
  by (cases ty; simp)+

lemma upload_consistent_initial: "upload_consistent upload_initial"
  by (simp add: upload_consistent_def upload_initial_def)

lemma upload_consistent_event:
  "upload_consistent st \<Longrightarrow> upload_consistent (upload_event e st)"
proof (cases st)
  case (Pair z retained)
  assume "upload_consistent st"
  then show ?thesis
    unfolding Pair
    by (cases e; cases "processoFile z"; cases "audienciaFile z")
       (auto simp: upload_consistent_def handleDrop_def removeProcessoFile_def removeAudienciaFile_def
             Let_def FileType_neq)
qed

lemma upload_consistent_events:
  "upload_consistent st \<Longrightarrow> upload_consistent (upload_events evs st)"
  by (induction evs arbitrary: st) (simp_all add: upload_consistent_event)

text \<open>
  Claim C7. After every sequence of drops and removals, starting from the empty zone,
  the retained list holds at most one file of each role and is exactly the two cells;
  and a further accepted drop of a role leaves, of that role, the new file alone, and
  leaves the files of the other role as they were.
\<close>

theorem upload_one_file_per_role:
  "length (filter (\<lambda>u. file_type u = Processo) (snd (upload_events evs upload_initial))) \<le> 1
   \<and> length (filter (\<lambda>u. file_type u = Audiencia) (snd (upload_events evs upload_initial))) \<le> 1
   \<and> snd (upload_events evs upload_initial) =
        (case processoFile (fst (upload_events evs upload_initial)) of Some p \<Rightarrow> [p] | None \<Rightarrow> [])
        @ (case audienciaFile (fst (upload_events evs upload_initial)) of Some a \<Rightarrow> [a] | None \<Rightarrow> [])
   \<and> filter (\<lambda>u. file_type u = ty)
        (snd (upload_event (Drop f ty new_id) (upload_events evs upload_initial)))
      = [\<lparr>file_data = f, file_type = ty, file_id = new_id\<rparr>]
   \<and> filter (\<lambda>u. file_type u \<noteq> ty)
        (snd (upload_event (Drop f ty new_id) (upload_events evs upload_initial)))
      = filter (\<lambda>u. file_type u \<noteq> ty) (snd (upload_events evs upload_initial))"
proof -
  obtain z retained where st: "upload_events evs upload_initial = (z, retained)"
    by (cases "upload_events evs upload_initial")
  have inv: "upload_consistent (z, retained)"
    using upload_consistent_events [OF upload_consistent_initial, of evs] by (simp add: st)
  show ?thesis
    unfolding st using inv
    by (cases ty; cases "processoFile z"; cases "audienciaFile z")
       (auto simp: upload_consistent_def handleDrop_def Let_def FileType_neq)
qed

text \<open>Claim C7 at a second document dropped after a document and a recording.\<close>

theorem upload_one_file_per_role_witness:
  "snd (upload_events
      [Drop \<lparr>file_name = ''a.pdf'', file_size = 10\<rparr> Processo ''id1'',
       Drop \<lparr>file_name = ''b.mp3'', file_size = 20\<rparr> Audiencia ''id2'',
       Drop \<lparr>file_name = ''c.pdf'', file_size = 30\<rparr> Processo ''id3''] upload_initial)
   = [\<lparr>file_data = \<lparr>file_name = ''c.pdf'', file_size = 30\<rparr>, file_type = Processo, file_id = ''id3''\<rparr>,
      \<lparr>file_data = \<lparr>file_name = ''b.mp3'', file_size = 20\<rparr>, file_type = Audiencia, file_id = ''id2''\<rparr>]"
  using upload_one_file_per_role [of
      "[Drop \<lparr>file_name = ''a.pdf'', file_size = 10\<rparr> Processo ''id1'',
        Drop \<lparr>file_name = ''b.mp3'', file_size = 20\<rparr> Audiencia ''id2'']"
      Processo "\<lparr>file_name = ''c.pdf'', file_size = 30\<rparr>" "''id3''"]
  by (simp add: upload_initial_def handleDrop_def Let_def)

section \<open>Properties of the results section\<close>

text \<open>
  Claim C9. In every state of the component, a URL of the generated document is
  offered only if the task list is not empty, every task, the last one in particular,
  is completed, and a case identifier is set; the URL is the download address of that
  case.
\<close>

theorem artifact_offered_only_when_completed:
  "u \<in> set (offered_artifact_urls s) \<Longrightarrow>
   tasks s \<noteq> [] \<and> status (last (tasks s)) = Completed
   \<and> (\<forall>t \<in> set (tasks s). status t = Completed)
   \<and> caseId s \<noteq> []
   \<and> u = API_URL @ ''/download/'' @ caseId s @ ''/sentenca''"
proof -
  assume "u \<in> set (offered_artifact_urls s)"
  then have v: "results_visible s" and u: "u = API_URL @ ''/download/'' @ caseId s @ ''/sentenca''"
    by (auto simp: offered_artifact_urls_def split: if_splits)
  from v have ne: "tasks s \<noteq> []" and all: "\<forall>t \<in> set (tasks s). status t = Completed"
    and c: "caseId s \<noteq> []"
    by (auto simp: results_visible_def list_all_iff)
  from ne all have "status (last (tasks s)) = Completed" by simp
  then show ?thesis using ne all c u by simp
qed

text \<open>
  Claim C9 at the state after a run of \<open>processWithAPI\<close> whose stages all succeed,
  started with the upload task completed and the case identifier set; before the run
  nothing is offered.
\<close>

theorem artifact_offered_only_when_completed_witness:
  "offered_artifact_urls (exec (fst (processWithAPI ''c1''
        (\<lambda>n. Fulfilled \<lparr>ok = True, statusText = ''OK'', body_text = Fulfilled [], body_json = Fulfilled None\<rparr>)))
      \<lparr>uploadedFiles = [], isProcessing = True,
       tasks = updateTaskStatus ''0'' Completed (Some ''Arquivos enviados! Case ID: c1'') newTasks_api,
       currentStep = [], caseId = ''c1''\<rparr>)
    = [''http://localhost:8000/download/c1/sentenca'', ''http://localhost:8000/download/c1/sentenca'']
   \<and> offered_artifact_urls
      \<lparr>uploadedFiles = [], isProcessing = True,
       tasks = updateTaskStatus ''0'' Completed (Some ''Arquivos enviados! Case ID: c1'') newTasks_api,
       currentStep = [], caseId = ''c1''\<rparr> = []
   \<and> map status (tasks (exec (fst (processWithAPI ''c1''
        (\<lambda>n. Fulfilled \<lparr>ok = True, statusText = ''OK'', body_text = Fulfilled [], body_json = Fulfilled None\<rparr>)))
      \<lparr>uploadedFiles = [], isProcessing = True,
       tasks = updateTaskStatus ''0'' Completed (Some ''Arquivos enviados! Case ID: c1'') newTasks_api,
       currentStep = [], caseId = ''c1''\<rparr>))
     = [Completed, Completed, Completed, Completed]"
  using artifact_offered_only_when_completed [of "''http://localhost:8000/download/c1/sentenca''"
      "exec (fst (processWithAPI ''c1''
        (\<lambda>n. Fulfilled \<lparr>ok = True, statusText = ''OK'', body_text = Fulfilled [], body_json = Fulfilled None\<rparr>)))
      \<lparr>uploadedFiles = [], isProcessing = True,
       tasks = updateTaskStatus ''0'' Completed (Some ''Arquivos enviados! Case ID: c1'') newTasks_api,
       currentStep = [], caseId = ''c1''\<rparr>"]
  by (simp add: offered_artifact_urls_def results_visible_def processWithAPI_def processWithAPI_steps_def
      newTasks_api_def try_stage_def message_or_default_def updateTaskStatus_def API_URL_def)

end
